theory Spec2Isabelle
  imports Main "HOL-Library.Sublist"
begin

section \<open>JavaScript regular expressions\<close>

text \<open>
  The parser of \<^verbatim>\<open>lib/dependency.js\<close> is written with regular-expression literals.
  They are embedded as terms of a small syntax, and matched by a backtracking matcher that
  returns every way of matching in the order in which the JavaScript matcher tries them
  (greedy quantifiers first take an iteration, then give it up). The first element of that
  list is the match that \<^verbatim>\<open>exec\<close> reports. Strings are lists of 8-bit characters.
\<close>

datatype regex =
    Eps
  | Bol
  | Eol
  | Dot
  | Chr char
  | Cls "(char \<times> char) list"
  | NCls "(char \<times> char) list"
  | Cat regex regex
  | Opt regex
  | Star regex
  | Plus regex
  | Grp nat regex

type_synonym captures = "nat \<Rightarrow> string option"

type_synonym mstate = "nat \<times> string \<times> captures"

definition charCode :: "char \<Rightarrow> nat" where
  "charCode c = of_char c"

definition toUpper :: "char \<Rightarrow> char" where
  "toUpper c = (if 97 \<le> charCode c \<and> charCode c \<le> 122 then char_of (charCode c - 32) else c)"

definition toLower :: "char \<Rightarrow> char" where
  "toLower c = (if 65 \<le> charCode c \<and> charCode c \<le> 90 then char_of (charCode c + 32) else c)"

definition canon :: "bool \<Rightarrow> char \<Rightarrow> char" where
  \<comment> \<open>Canonicalize of the language standard: upper case under the flag \<^verbatim>\<open>i\<close>;
      only ASCII letters can meet the ASCII characters of the patterns below.\<close>
  "canon ci c = (if ci then toUpper c else c)"

definition lineTerminator :: "char \<Rightarrow> bool" where
  "lineTerminator c = (charCode c = 10 \<or> charCode c = 13)"

definition inRanges :: "(char \<times> char) list \<Rightarrow> char \<Rightarrow> bool" where
  "inRanges rs c = list_ex (\<lambda>(lo, hi). charCode lo \<le> charCode c \<and> charCode c \<le> charCode hi) rs"

definition inClass :: "bool \<Rightarrow> (char \<times> char) list \<Rightarrow> char \<Rightarrow> bool" where
  \<comment> \<open>some member of the class has the same canonical form as \<open>c\<close>\<close>
  "inClass ci rs c =
     (inRanges rs c \<or> (ci \<and> (inRanges rs (toUpper c) \<or> inRanges rs (toLower c))))"

fun weight :: "regex \<Rightarrow> nat" where
  "weight (Cat a b) = Suc (weight a + weight b)"
| "weight (Opt r) = Suc (weight r)"
| "weight (Star r) = Suc (weight r)"
| "weight (Plus r) = Suc (Suc (weight r))"
| "weight (Grp n r) = Suc (weight r)"
| "weight r = 0"

function ms :: "bool \<Rightarrow> regex \<Rightarrow> mstate \<Rightarrow> mstate list" where
  "ms ci Eps st = [st]"
| "ms ci Bol (p, s, c) = (if p = 0 then [(p, s, c)] else [])"
| "ms ci Eol (p, s, c) = (if s = [] then [(p, s, c)] else [])"
| "ms ci Dot (p, s, c) =
     (case s of [] \<Rightarrow> []
      | x # xs \<Rightarrow> if lineTerminator x then [] else [(Suc p, xs, c)])"
| "ms ci (Chr a) (p, s, c) =
     (case s of [] \<Rightarrow> []
      | x # xs \<Rightarrow> if canon ci x = canon ci a then [(Suc p, xs, c)] else [])"
| "ms ci (Cls rs) (p, s, c) =
     (case s of [] \<Rightarrow> []
      | x # xs \<Rightarrow> if inClass ci rs x then [(Suc p, xs, c)] else [])"
| "ms ci (NCls rs) (p, s, c) =
     (case s of [] \<Rightarrow> []
      | x # xs \<Rightarrow> if inClass ci rs x then [] else [(Suc p, xs, c)])"
| "ms ci (Cat a b) st = concat (map (ms ci b) (ms ci a st))"
| "ms ci (Opt r) (p, s, c) =
     filter (\<lambda>(p', s', c'). length s' < length s) (ms ci r (p, s, c)) @ [(p, s, c)]"
| "ms ci (Star r) (p, s, c) =
     concat (map (\<lambda>(p', s', c'). if length s' < length s then ms ci (Star r) (p', s', c') else [])
                 (ms ci r (p, s, c)))
     @ [(p, s, c)]"
| "ms ci (Plus r) st = concat (map (ms ci (Star r)) (ms ci r st))"
| "ms ci (Grp n r) (p, s, c) =
     map (\<lambda>(p', s', c'). (p', s', c'(n := Some (take (p' - p) s)))) (ms ci r (p, s, c))"
  by pat_completeness auto
termination
  by (relation "inv_image (measure weight <*lex*> measure length) (\<lambda>(ci, r, p, s, c). (r, s))")
     auto

fun Seq :: "regex list \<Rightarrow> regex" where
  "Seq [] = Eps"
| "Seq (r # rs) = Cat r (Seq rs)"

definition Lit :: "string \<Rightarrow> regex" where
  "Lit s = Seq (map Chr s)"

fun searchFrom :: "bool \<Rightarrow> regex \<Rightarrow> nat \<Rightarrow> string \<Rightarrow> (nat \<times> mstate) option" where
  "searchFrom ci r i [] =
     (case ms ci r (i, [], \<lambda>_. None) of st # _ \<Rightarrow> Some (i, st) | [] \<Rightarrow> None)"
| "searchFrom ci r i (x # xs) =
     (case ms ci r (i, x # xs, \<lambda>_. None) of
        st # _ \<Rightarrow> Some (i, st)
      | [] \<Rightarrow> searchFrom ci r (Suc i) xs)"

definition regexMatch :: "bool \<Rightarrow> regex \<Rightarrow> string \<Rightarrow> (nat \<times> mstate) option" where
  \<comment> \<open>the first start index at which the pattern matches, and the first match there\<close>
  "regexMatch ci r s = searchFrom ci r 0 s"

definition regexTest :: "bool \<Rightarrow> regex \<Rightarrow> string \<Rightarrow> bool" where
  "regexTest ci r s = (regexMatch ci r s \<noteq> None)"

definition regexExec :: "bool \<Rightarrow> regex \<Rightarrow> string \<Rightarrow> captures option" where
  \<comment> \<open>\<^verbatim>\<open>null\<close> is \<open>None\<close>; element \<open>k\<close> of the result array is group \<open>k\<close>,
      \<^verbatim>\<open>undefined\<close> (\<open>None\<close>) for a group that did not take part\<close>
  "regexExec ci r s = map_option (\<lambda>(i, p, rest, c). c) (regexMatch ci r s)"

definition regexReplace :: "bool \<Rightarrow> regex \<Rightarrow> string \<Rightarrow> string \<Rightarrow> string" where
  \<comment> \<open>\<^verbatim>\<open>s.replace(r, repl)\<close> for a pattern without the flag \<^verbatim>\<open>g\<close>\<close>
  "regexReplace ci r s repl =
     (case regexMatch ci r s of
        None \<Rightarrow> s
      | Some (i, p, rest, c) \<Rightarrow> take i s @ repl @ rest)"

section \<open>JavaScript values\<close>

text \<open>
  A value that is a string or \<^verbatim>\<open>undefined\<close> is a \<open>string option\<close>. A string is
  truthy when it is not empty; \<^verbatim>\<open>undefined\<close> is falsy.
\<close>

definition truthy :: "string option \<Rightarrow> bool" where
  "truthy v = (case v of None \<Rightarrow> False | Some s \<Rightarrow> s \<noteq> [])"

definition jsOr :: "string option \<Rightarrow> string option \<Rightarrow> string option" where
  \<comment> \<open>\<^verbatim>\<open>a || b\<close>\<close>
  "jsOr a b = (if truthy a then a else b)"

definition toStr :: "string option \<Rightarrow> string" where
  \<comment> \<open>the conversion that \<^verbatim>\<open>RegExp.prototype.test\<close> applies to its argument\<close>
  "toStr v = (case v of None \<Rightarrow> ''undefined'' | Some s \<Rightarrow> s)"

section \<open>The dependency descriptor\<close>

datatype error =
    MissingVersionError
  | InvalidCommitError string
  | AlreadyInstalledError string
  | PathAccessError string string
  | IPFSConnectionError
  | UnknownNodeTypeError int string string
  | CleanupError string string string
  | UnrecognizedSourceError string
  | TypeError string
  | ExternalError string

record dependency =
  name :: string
  path :: string
  version :: string
  packagesDirectory :: string
  installedAt :: string
  u_tmpDir :: "string option"

definition hasGitPath :: "dependency \<Rightarrow> bool" where
  \<comment> \<open>\<^verbatim>\<open>/\.git$/i.test(this.path)\<close>\<close>
  "hasGitPath this = regexTest True (Seq [Chr CHR ''.'', Lit ''git'', Eol]) (path this)"

definition hasIPFSPath :: "dependency \<Rightarrow> bool" where
  \<comment> \<open>\<^verbatim>\<open>/^ipfs:\/\/[A-Za-z0-9]+$/i.test(this.path)\<close>\<close>
  "hasIPFSPath this =
     regexTest True
       (Seq [Bol, Lit ''ipfs://'',
             Plus (Cls [(CHR ''A'', CHR ''Z''), (CHR ''a'', CHR ''z''), (CHR ''0'', CHR ''9'')]),
             Eol])
       (path this)"

definition hasVersion :: "dependency \<Rightarrow> bool" where
  "hasVersion this = (version this \<noteq> [])"

definition getVersion :: "dependency \<Rightarrow> string" where
  "getVersion this = version this"

definition getName :: "dependency \<Rightarrow> string" where
  "getName this = name this"

definition setName :: "string \<Rightarrow> dependency \<Rightarrow> dependency" where
  "setName n this = this\<lparr>name := n\<rparr>"

definition getPath :: "dependency \<Rightarrow> string" where
  "getPath this = path this"

definition toString :: "dependency \<Rightarrow> string" where
  "toString this = getPath this @ getVersion this"

definition Dependency :: "string option \<Rightarrow> string option \<Rightarrow> string option \<Rightarrow> error + dependency" where
  \<comment> \<open>the constructor; \<^verbatim>\<open>x || ''\<close> is the empty string for a falsy \<open>x\<close>\<close>
  "Dependency p v n =
     (let this = \<lparr>name = (if truthy n then the n else []),
                  path = (if truthy p then the p else []),
                  version = (if truthy v then the v else []),
                  packagesDirectory = ''dapple_packages'',
                  installedAt = [],
                  u_tmpDir = None\<rparr>
      in if hasGitPath this \<and> \<not> truthy v then Inl MissingVersionError else Inr this)"

definition gitPathRegex :: regex where
  \<comment> \<open>\<^verbatim>\<open>/^(.+.git)(?:@([a-z0-9]+))$/i\<close>\<close>
  "gitPathRegex =
     Seq [Bol,
          Grp 1 (Seq [Plus Dot, Dot, Lit ''git'']),
          Seq [Chr CHR ''@'', Grp 2 (Plus (Cls [(CHR ''a'', CHR ''z''), (CHR ''0'', CHR ''9'')]))],
          Eol]"

definition pathRegex :: regex where
  \<comment> \<open>\<^verbatim>\<open>/^([^@#]+)?(?:@(.+)?)?$/\<close>\<close>
  "pathRegex =
     Seq [Bol,
          Opt (Grp 1 (Plus (NCls [(CHR ''@'', CHR ''@''), (CHR ''#'', CHR ''#'')]))),
          Opt (Seq [Chr CHR ''@'', Opt (Grp 2 (Plus Dot))]),
          Eol]"

definition ipfsRegex :: regex where
  \<comment> \<open>\<^verbatim>\<open>/^@?(ipfs:\/\/)?Qm[A-Za-z0-9]+$/i\<close>\<close>
  "ipfsRegex =
     Seq [Bol, Opt (Chr CHR ''@''), Opt (Grp 1 (Lit ''ipfs://'')), Lit ''Qm'',
          Plus (Cls [(CHR ''A'', CHR ''Z''), (CHR ''a'', CHR ''z''), (CHR ''0'', CHR ''9'')]),
          Eol]"

definition ipfsPrefixRegex :: regex where
  \<comment> \<open>\<^verbatim>\<open>/^@?ipfs:\/\//i\<close>\<close>
  "ipfsPrefixRegex = Seq [Bol, Opt (Chr CHR ''@''), Lit ''ipfs://'']"

definition fromDependencyString :: "string \<Rightarrow> string option \<Rightarrow> error + dependency" where
  "fromDependencyString p n =
     (if regexTest True gitPathRegex p then
        (case regexExec True gitPathRegex p of
           None \<Rightarrow> Inl (TypeError ''Cannot read property 2 of null'')
         | Some pathPieces \<Rightarrow> Dependency (pathPieces 1) (pathPieces 2) n)
      else
        (case regexExec False pathRegex p of
           None \<Rightarrow> Inl (TypeError ''Cannot read property 2 of null'')
         | Some pathPieces \<Rightarrow>
             let v = pathPieces 2; p1 = pathPieces 1
             in if regexTest True ipfsRegex (toStr (jsOr v p1)) then
                  (let n1 = (if \<not> truthy n then (if truthy v then p1 else Some []) else n)
                   in case jsOr v p1 of
                        None \<Rightarrow> Inl (TypeError ''Cannot read property replace of undefined'')
                      | Some vp \<Rightarrow>
                          let v1 = regexReplace True ipfsPrefixRegex vp [];
                              p2 = ''ipfs://'' @ v1
                          in Dependency (Some p2) (Some v1) n1)
                else Dependency p1 v n))"

section \<open>Paths\<close>

text \<open>
  \<^verbatim>\<open>path.join\<close> of the Node.js standard library (POSIX flavour): the non-empty arguments
  are joined with a slash and the result is normalised; empty and \<^verbatim>\<open>.\<close> segments are
  dropped and \<^verbatim>\<open>..\<close> removes the segment before it.
\<close>

fun splitSlash :: "string \<Rightarrow> string list" where
  "splitSlash [] = [[]]"
| "splitSlash (c # cs) =
     (if c = CHR ''/'' then [] # splitSlash cs
      else (case splitSlash cs of [] \<Rightarrow> [[c]] | x # xs \<Rightarrow> (c # x) # xs))"

fun joinSlash :: "string list \<Rightarrow> string" where
  "joinSlash [] = []"
| "joinSlash [x] = x"
| "joinSlash (x # y # ys) = x @ CHR ''/'' # joinSlash (y # ys)"

definition normStep :: "bool \<Rightarrow> string list \<Rightarrow> string \<Rightarrow> string list" where
  "normStep allowAboveRoot acc seg =
     (if seg = [] \<or> seg = ''.'' then acc
      else if seg = ''..'' then
        (if acc \<noteq> [] \<and> last acc \<noteq> ''..'' then butlast acc
         else if allowAboveRoot then acc @ [''..''] else acc)
      else acc @ [seg])"

definition normalizeArray :: "bool \<Rightarrow> string list \<Rightarrow> string list" where
  "normalizeArray allowAboveRoot parts = foldl (normStep allowAboveRoot) [] parts"

definition isAbsolute :: "string \<Rightarrow> bool" where
  "isAbsolute p = (p \<noteq> [] \<and> hd p = CHR ''/'')"

definition normalize :: "string \<Rightarrow> string" where
  "normalize p =
     (if p = [] then ''.''
      else let trailingSeparator = (last p = CHR ''/'');
               q = joinSlash (normalizeArray (\<not> isAbsolute p) (splitSlash p));
               q1 = (if q = [] \<and> \<not> isAbsolute p then ''.'' else q);
               q2 = (if q1 \<noteq> [] \<and> trailingSeparator then q1 @ ''/'' else q1)
           in if isAbsolute p then CHR ''/'' # q2 else q2)"

definition pathJoin :: "string list \<Rightarrow> string" where
  "pathJoin args =
     (let joined = joinSlash (filter (\<lambda>a. a \<noteq> []) args)
      in if joined = [] then ''.'' else normalize joined)"

section \<open>The file system, the network and the other collaborators\<close>

text \<open>
  The file system maps a resolved location (the list of directory names from the root) to
  what is there. A path string is resolved against the working directory of the process.
  Permissions are not modelled: what exists is readable and writable.
\<close>

datatype node = Dir | File string

type_synonym fsys = "string list \<rightharpoonup> node"

record link =
  Hash :: string
  Name :: string
  Type :: int

datatype event =
    Spawn string "string option"
  | IpfsLs string
  | IpfsCat string
  | ReadManifest string

record world =
  fsys :: fsys
  trace :: "event list"

text \<open>
  What the installer cannot decide is a parameter: the working directory, the temporary
  directory of the operating system, the random token, the answers of the IPFS node
  (\<open>None\<close> when the call throws; the result of \<^verbatim>\<open>ls\<close> is the list of its
  \<^verbatim>\<open>Objects\<close>, each given by its \<^verbatim>\<open>Links\<close>), the effect of a spawned process on
  the file system (\<open>None\<close> when it exits with an error), the name in the manifest of a
  fetched package, the IPFS settings of the configuration, and whether a removal fails
  (\<open>Some keep\<close>: it throws, and of the entries to remove those satisfying \<open>keep\<close> are
  still there).
\<close>

record env =
  cwd :: "string list"
  os_tmpdir :: string
  random :: string
  ipfs_settings :: "(string \<times> string) option"
  ipfs_ls :: "string \<Rightarrow> link list list option"
  ipfs_cat :: "string \<Rightarrow> string option"
  execSync :: "string \<Rightarrow> string option \<Rightarrow> fsys \<Rightarrow> fsys option"
  dappfile_name :: "string \<Rightarrow> fsys \<Rightarrow> string option"
  removeFailure :: "string list \<Rightarrow> (string list \<Rightarrow> bool) option"

definition resolve :: "env \<Rightarrow> string \<Rightarrow> string list" where
  "resolve E p = foldl (normStep False) (if isAbsolute p then [] else cwd E) (splitSlash p)"

definition nodeAt :: "fsys \<Rightarrow> string list \<Rightarrow> node option" where
  "nodeAt fs k = (if k = [] then Some Dir else fs k)"

definition isFile :: "node option \<Rightarrow> bool" where
  "isFile n = (case n of Some (File _) \<Rightarrow> True | _ \<Rightarrow> False)"

text \<open>
  Modelled from the spec: \<^verbatim>\<open>./file.js\<close>, the module behind \<^verbatim>\<open>fs\<close>, is not among the
  sources. Its operations are modelled as the specification uses them: an access check, the
  creation of one directory, the creation of a directory with its ancestors, the creation
  of an empty directory, the writing of a file, the copy of a tree and its removal.
\<close>

definition accessSync :: "env \<Rightarrow> fsys \<Rightarrow> string \<Rightarrow> bool" where
  \<comment> \<open>Modelled from the spec: the access check of the missing \<^verbatim>\<open>./file.js\<close>;
      \<open>True\<close> when the call returns, \<open>False\<close> when it throws\<close>
  "accessSync E fs p = (nodeAt fs (resolve E p) \<noteq> None)"

definition mkdirSync :: "env \<Rightarrow> fsys \<Rightarrow> string \<Rightarrow> error + fsys" where
  \<comment> \<open>Modelled from the spec: the creation of one directory by the missing
      \<^verbatim>\<open>./file.js\<close>; its parent must be a directory\<close>
  "mkdirSync E fs p =
     (let k = resolve E p
      in if nodeAt fs k \<noteq> None then Inl (ExternalError ''EEXIST'')
         else if nodeAt fs (butlast k) \<noteq> Some Dir then Inl (ExternalError ''ENOENT'')
         else Inr (fs(k \<mapsto> Dir)))"

definition mkdirs :: "fsys \<Rightarrow> string list \<Rightarrow> error + fsys" where
  \<comment> \<open>Modelled from the spec: a directory is made with the directories leading to it,
      unless a file is in the way\<close>
  "mkdirs fs k =
     (if list_ex (\<lambda>q. isFile (nodeAt fs q)) (prefixes k) then Inl (ExternalError ''ENOTDIR'')
      else Inr (\<lambda>q. if q \<noteq> [] \<and> prefix q k then Some Dir else fs q))"

definition ensureDirSync :: "env \<Rightarrow> fsys \<Rightarrow> string \<Rightarrow> error + fsys" where
  \<comment> \<open>Modelled from the spec: \<^verbatim>\<open>ensureDirSync\<close> of the missing \<^verbatim>\<open>./file.js\<close>\<close>
  "ensureDirSync E fs p = mkdirs fs (resolve E p)"

definition emptyDirSync :: "env \<Rightarrow> fsys \<Rightarrow> string \<Rightarrow> error + fsys" where
  \<comment> \<open>Modelled from the spec: \<^verbatim>\<open>emptyDirSync\<close> of the missing \<^verbatim>\<open>./file.js\<close>;
      the directory exists afterwards and has no entries\<close>
  "emptyDirSync E fs p =
     (let k = resolve E p
      in case mkdirs fs k of
           Inl e \<Rightarrow> Inl e
         | Inr fs1 \<Rightarrow> Inr (\<lambda>q. if strict_prefix k q then None else fs1 q))"

definition writeFileSync :: "env \<Rightarrow> fsys \<Rightarrow> string \<Rightarrow> string \<Rightarrow> error + fsys" where
  \<comment> \<open>Modelled from the spec: \<^verbatim>\<open>writeFileSync\<close> of the missing \<^verbatim>\<open>./file.js\<close>;
      the content is written verbatim, the parent must be a directory\<close>
  "writeFileSync E fs p content =
     (let k = resolve E p
      in if nodeAt fs k = Some Dir then Inl (ExternalError ''EISDIR'')
         else if nodeAt fs (butlast k) \<noteq> Some Dir then Inl (ExternalError ''ENOENT'')
         else Inr (fs(k \<mapsto> File content)))"

definition copySync :: "env \<Rightarrow> fsys \<Rightarrow> string \<Rightarrow> string \<Rightarrow> error + fsys" where
  \<comment> \<open>Modelled from the spec: \<^verbatim>\<open>copySync\<close> of the missing \<^verbatim>\<open>./file.js\<close>.
      The tree at \<open>src\<close> is copied over what is at \<open>dst\<close>: entries of the source
      replace entries of the same relative name, the other entries of the destination stay\<close>
  "copySync E fs src dst =
     (let ks = resolve E src; kd = resolve E dst
      in if nodeAt fs ks = None then Inl (ExternalError ''ENOENT'')
         else case mkdirs fs (butlast kd) of
           Inl e \<Rightarrow> Inl e
         | Inr fs1 \<Rightarrow>
             Inr (\<lambda>q. if prefix kd q then
                         (case nodeAt fs (ks @ drop (length kd) q) of
                            Some n \<Rightarrow> Some n
                          | None \<Rightarrow> fs1 q)
                       else fs1 q))"

definition removeSync :: "env \<Rightarrow> fsys \<Rightarrow> string \<Rightarrow> bool \<times> fsys" where
  \<comment> \<open>Modelled from the spec: \<^verbatim>\<open>removeSync\<close> of the missing \<^verbatim>\<open>./file.js\<close>;
      whether the call returns, and the file system it leaves behind\<close>
  "removeSync E fs p =
     (let k = resolve E p
      in case removeFailure E k of
           None \<Rightarrow> (True, \<lambda>q. if prefix k q then None else fs q)
         | Some keep \<Rightarrow> (False, \<lambda>q. if prefix k q \<and> \<not> keep q then None else fs q))"

section \<open>Fetching\<close>

type_synonym 'a result = "(error + 'a) \<times> world"

definition logEvent :: "event \<Rightarrow> world \<Rightarrow> world" where
  "logEvent e w = w\<lparr>trace := trace w @ [e]\<rparr>"

definition spawn :: "env \<Rightarrow> string \<Rightarrow> string option \<Rightarrow> world \<Rightarrow> unit result" where
  \<comment> \<open>\<^verbatim>\<open>child_process.execSync(cmd, {cwd: dir})\<close>\<close>
  "spawn E cmd dir w =
     (let w1 = logEvent (Spawn cmd dir) w
      in case execSync E cmd dir (fsys w1) of
           None \<Rightarrow> (Inl (ExternalError (''Command failed: '' @ cmd)), w1)
         | Some fs1 \<Rightarrow> (Inr (), w1\<lparr>fsys := fs1\<rparr>))"

definition atRegex :: regex where
  \<comment> \<open>\<^verbatim>\<open>/^@/\<close>\<close>
  "atRegex = Seq [Bol, Chr CHR ''@'']"

definition hexRegex :: regex where
  \<comment> \<open>\<^verbatim>\<open>/^[a-f0-9]+$/i\<close>\<close>
  "hexRegex = Seq [Bol, Plus (Cls [(CHR ''a'', CHR ''f''), (CHR ''0'', CHR ''9'')]), Eol]"

definition u_pullGit :: "env \<Rightarrow> dependency \<Rightarrow> string \<Rightarrow> world \<Rightarrow> unit result" where
  \<comment> \<open>\<^verbatim>\<open>_pullGit\<close>\<close>
  "u_pullGit E this target w =
     (if \<not> hasVersion this then (Inl MissingVersionError, w)
      else let commit = regexReplace False atRegex (getVersion this) []
           in if \<not> regexTest True hexRegex commit then (Inl (InvalidCommitError commit), w)
              else case spawn E (''git clone '' @ getPath this @ '' '' @ target) None w of
                     (Inl e, w1) \<Rightarrow> (Inl e, w1)
                   | (Inr _, w1) \<Rightarrow>
                (case spawn E (''git reset --hard '' @ commit) (Some target) w1 of
                     (Inl e, w2) \<Rightarrow> (Inl e, w2)
                   | (Inr _, w2) \<Rightarrow>
                (case spawn E ''git submodule init'' (Some target) w2 of
                     (Inl e, w3) \<Rightarrow> (Inl e, w3)
                   | (Inr _, w3) \<Rightarrow> spawn E ''git submodule update'' (Some target) w3)))"

definition types_dir :: int where
  "types_dir = 1"

definition types_file :: int where
  "types_file = 2"

text \<open>
  The inner function \<^verbatim>\<open>pullIPFS\<close> recurses on what the IPFS node answers, which need
  not be a finite tree: the first argument bounds the depth of the recursion, and
  \<open>None\<close> means that the bound was reached.
\<close>

fun pullIPFS :: "nat \<Rightarrow> env \<Rightarrow> string \<Rightarrow> string \<Rightarrow> string \<Rightarrow> int \<Rightarrow> world \<Rightarrow> unit result option"
  and pullLinks :: "nat \<Rightarrow> env \<Rightarrow> string \<Rightarrow> link list \<Rightarrow> string \<Rightarrow> world \<Rightarrow> unit result option"
where
  "pullIPFS 0 E rootHash hash dest ty w = None"
| "pullIPFS (Suc k) E rootHash hash dest ty w =
     (if ty = types_dir then
        (case ensureDirSync E (fsys w) dest of
           Inl e \<Rightarrow> Some (Inl e, w)
         | Inr fs1 \<Rightarrow>
             (let w1 = logEvent (IpfsLs hash) (w\<lparr>fsys := fs1\<rparr>)
              in (case ipfs_ls E hash of
                    None \<Rightarrow> Some (Inl (ExternalError ''ipfs.ls failed''), w1)
                  | Some [] \<Rightarrow>
                      Some (Inl (TypeError ''Cannot read property Links of undefined''), w1)
                  | Some (links # _) \<Rightarrow> pullLinks k E rootHash links dest w1)))
      else if ty = types_file then
        (let w1 = logEvent (IpfsCat hash) w
         in (case ipfs_cat E hash of
               None \<Rightarrow> Some (Inl (ExternalError ''ipfs.cat failed''), w1)
             | Some content \<Rightarrow>
                 (case writeFileSync E (fsys w1) dest content of
                    Inl e \<Rightarrow> Some (Inl e, w1)
                  | Inr fs1 \<Rightarrow> Some (Inr (), w1\<lparr>fsys := fs1\<rparr>))))
      else Some (Inl (UnknownNodeTypeError ty hash rootHash), w))"
| "pullLinks k E rootHash [] dest w = Some (Inr (), w)"
| "pullLinks k E rootHash (l # ls) dest w =
     (case pullIPFS k E rootHash (Hash l) (pathJoin [dest, Name l]) (Type l) w of
        None \<Rightarrow> None
      | Some (Inl e, w1) \<Rightarrow> Some (Inl e, w1)
      | Some (Inr _, w1) \<Rightarrow> pullLinks k E rootHash ls dest w1)"

definition ipfsSchemeRegex :: regex where
  \<comment> \<open>\<^verbatim>\<open>/^ipfs:\/\//i\<close>\<close>
  "ipfsSchemeRegex = Seq [Bol, Lit ''ipfs://'']"

definition u_pullIPFS :: "nat \<Rightarrow> env \<Rightarrow> dependency \<Rightarrow> string \<Rightarrow> world \<Rightarrow> unit result option" where
  \<comment> \<open>\<^verbatim>\<open>_pullIPFS\<close>\<close>
  "u_pullIPFS k E this target w =
     (case ipfs_settings E of
        None \<Rightarrow> Some (Inl (ExternalError ''no IPFS settings''), w)
      | Some settings \<Rightarrow>
          (let rootHash = regexReplace True ipfsSchemeRegex (getPath this) [];
               w1 = logEvent (IpfsLs rootHash) w
           in (case ipfs_ls E rootHash of
                 None \<Rightarrow> Some (Inl IPFSConnectionError, w1)
               | Some _ \<Rightarrow> pullIPFS k E rootHash rootHash target types_dir w1)))"

definition pull :: "nat \<Rightarrow> env \<Rightarrow> dependency \<Rightarrow> string \<Rightarrow> world \<Rightarrow> unit result option" where
  "pull k E this destination w =
     (if hasGitPath this then Some (u_pullGit E this destination w)
      else if hasIPFSPath this then u_pullIPFS k E this destination w
      else Some (Inl (UnrecognizedSourceError (getPath this)), w))"

section \<open>Installing\<close>

definition u_getTmpDir :: "env \<Rightarrow> dependency \<Rightarrow> world \<Rightarrow> (error + string) \<times> dependency \<times> world" where
  \<comment> \<open>\<^verbatim>\<open>_getTmpDir\<close>; the field is assigned before the directory is emptied\<close>
  "u_getTmpDir E this w =
     (if \<not> truthy (u_tmpDir this) then
        (let d = pathJoin [os_tmpdir E, ''dapple'', ''packages'', random E];
             this1 = this\<lparr>u_tmpDir := Some d\<rparr>
         in (case emptyDirSync E (fsys w) d of
               Inl e \<Rightarrow> (Inl e, this1, w)
             | Inr fs1 \<Rightarrow> (Inr d, this1, w\<lparr>fsys := fs1\<rparr>)))
      else (Inr (the (u_tmpDir this)), this, w))"

definition u_throwIfInstalled :: "env \<Rightarrow> dependency \<Rightarrow> world \<Rightarrow> error option" where
  \<comment> \<open>\<^verbatim>\<open>_throwIfInstalled\<close>\<close>
  "u_throwIfInstalled E this w =
     (let target = pathJoin [packagesDirectory this, getName this];
          alreadyInstalled = accessSync E (fsys w) target
      in if alreadyInstalled then Some (AlreadyInstalledError (getName this)) else None)"

definition ensurePackagesDirectory :: "env \<Rightarrow> dependency \<Rightarrow> world \<Rightarrow> unit result" where
  \<comment> \<open>the first \<^verbatim>\<open>try\<close> statement of \<^verbatim>\<open>install\<close>\<close>
  "ensurePackagesDirectory E this w =
     (if accessSync E (fsys w) (packagesDirectory this) then (Inr (), w)
      else case mkdirSync E (fsys w) (packagesDirectory this) of
             Inl e \<Rightarrow> (Inl (PathAccessError (packagesDirectory this)
                              (case e of ExternalError m \<Rightarrow> m | _ \<Rightarrow> [])), w)
           | Inr fs1 \<Rightarrow> (Inr (), w\<lparr>fsys := fs1\<rparr>))"

definition installCopy :: "nat \<Rightarrow> env \<Rightarrow> dependency \<Rightarrow> world \<Rightarrow> ((error + string) \<times> dependency \<times> world) option" where
  \<comment> \<open>\<^verbatim>\<open>install\<close> from the call of \<^verbatim>\<open>_getTmpDir\<close> to the assignment of
      \<^verbatim>\<open>this.installedAt\<close> after the copy; the result is the scratch directory\<close>
  "installCopy k E this w =
     (case u_getTmpDir E this w of
        (Inl e, this1, w1) \<Rightarrow> Some (Inl e, this1, w1)
      | (Inr tmpDir, this1, w1) \<Rightarrow>
     (case pull k E this1 tmpDir w1 of
        None \<Rightarrow> None
      | Some (Inl e, w2) \<Rightarrow> Some (Inl e, this1, w2)
      | Some (Inr _, w2) \<Rightarrow>
     (let w3 = logEvent (ReadManifest tmpDir) w2
      in (case dappfile_name E tmpDir (fsys w3) of
        None \<Rightarrow> Some (Inl (ExternalError ''no dappfile''), this1, w3)
      | Some n \<Rightarrow>
     (let this2 = setName n this1;
          installedAt1 = pathJoin [packagesDirectory this2, getName this2]
      in (case copySync E (fsys w3) tmpDir installedAt1 of
        Inl e \<Rightarrow> Some (Inl e, this2, w3)
      | Inr fs4 \<Rightarrow>
          Some (Inr tmpDir, this2\<lparr>installedAt := installedAt1\<rparr>, w3\<lparr>fsys := fs4\<rparr>)))))))"

definition installScratch :: "nat \<Rightarrow> env \<Rightarrow> dependency \<Rightarrow> world \<Rightarrow> ((error + unit) \<times> dependency \<times> world) option" where
  \<comment> \<open>\<^verbatim>\<open>install\<close> when the name is not known: the copy, then the second
      \<^verbatim>\<open>try\<close> statement\<close>
  "installScratch k E this w =
     (case installCopy k E this w of
        None \<Rightarrow> None
      | Some (Inl e, this1, w1) \<Rightarrow> Some (Inl e, this1, w1)
      | Some (Inr tmpDir, this3, w4) \<Rightarrow>
          (case removeSync E (fsys w4) tmpDir of
             (False, fs5) \<Rightarrow>
               Some (Inl (CleanupError (getName this3) (installedAt this3) tmpDir), this3,
                     w4\<lparr>fsys := fs5\<rparr>)
           | (True, fs5) \<Rightarrow> Some (Inr (), this3, w4\<lparr>fsys := fs5\<rparr>)))"

definition install :: "nat \<Rightarrow> env \<Rightarrow> dependency \<Rightarrow> world \<Rightarrow> ((error + unit) \<times> dependency \<times> world) option" where
  "install k E this w =
     (case (if getName this \<noteq> [] then u_throwIfInstalled E this w else None) of
        Some e \<Rightarrow> Some (Inl e, this, w)
      | None \<Rightarrow>
     (case ensurePackagesDirectory E this w of
        (Inl e, w1) \<Rightarrow> Some (Inl e, this, w1)
      | (Inr _, w1) \<Rightarrow>
          if getName this \<noteq> [] then
            (let installedAt1 = pathJoin [packagesDirectory this, getName this]
             in case pull k E this installedAt1 w1 of
                  None \<Rightarrow> None
                | Some (Inl e, w2) \<Rightarrow> Some (Inl e, this, w2)
                | Some (Inr _, w2) \<Rightarrow> Some (Inr (), this\<lparr>installedAt := installedAt1\<rparr>, w2))
          else installScratch k E this w1))"

fun showNat :: "nat \<Rightarrow> string" where
  "showNat n =
     (if n < 10 then [char_of (48 + n)] else showNat (n div 10) @ [char_of (48 + n mod 10)])"

declare showNat.simps [simp del]

definition showInt :: "int \<Rightarrow> string" where
  \<comment> \<open>the decimal text of an integer, as string concatenation produces it\<close>
  "showInt i = (if i < 0 then CHR ''-'' # showNat (nat (- i)) else showNat (nat i))"

definition message :: "error \<Rightarrow> string" where
  \<comment> \<open>the text of each error\<close>
  "message e =
     (case e of
        MissingVersionError \<Rightarrow> ''Git paths must include an exact commit hash!''
      | InvalidCommitError commit \<Rightarrow> ''Invalid commit hash: '' @ commit
      | AlreadyInstalledError n \<Rightarrow> n @ '' is already installed.''
      | PathAccessError d cause \<Rightarrow> ''Could not access or create '' @ d @ '': '' @ cause
      | IPFSConnectionError \<Rightarrow>
          ''Unable to retrieve directory from IPFS! '' @
          ''Please make sure your IPFS connection settings '' @
          ''in ~/.dapplerc are correct and that you have '' @
          ''supplied the correct IPFS hash.''
      | UnknownNodeTypeError ty h rootHash \<Rightarrow>
          ''Unknown IPFS type '' @ [CHR 0x22] @ showInt ty @ [CHR 0x22] @ '' at '' @ h @
          '' while pulling '' @ rootHash
      | CleanupError n at tmp \<Rightarrow>
          n @ '' installed at '' @ at @ '', but cleanup failed. Please manually delete '' @ tmp
      | UnrecognizedSourceError p \<Rightarrow> ''Could not make sense of '' @ [CHR 0x22] @ p @ [CHR 0x22]
      | TypeError m \<Rightarrow> m
      | ExternalError m \<Rightarrow> m)"

section \<open>Notions used in the statements and proofs\<close>

text \<open>
  The single-character patterns, the characters each accepts, and the length of the
  longest prefix of a string that a single-character pattern accepts throughout.
\<close>

fun isAtom :: "regex \<Rightarrow> bool" where
  "isAtom Dot = True"
| "isAtom (Chr a) = True"
| "isAtom (Cls rs) = True"
| "isAtom (NCls rs) = True"
| "isAtom r = False"

fun accepts :: "bool \<Rightarrow> regex \<Rightarrow> char \<Rightarrow> bool" where
  "accepts ci Dot x = (\<not> lineTerminator x)"
| "accepts ci (Chr a) x = (canon ci x = canon ci a)"
| "accepts ci (Cls rs) x = inClass ci rs x"
| "accepts ci (NCls rs) x = (\<not> inClass ci rs x)"
| "accepts ci r x = False"

definition run :: "bool \<Rightarrow> regex \<Rightarrow> string \<Rightarrow> nat" where
  "run ci r s = length (takeWhile (accepts ci r) s)"

definition alnum :: "char \<Rightarrow> bool" where
  \<comment> \<open>the ASCII digits and letters\<close>
  "alnum x =
     ((48 \<le> charCode x \<and> charCode x \<le> 57) \<or> (65 \<le> charCode x \<and> charCode x \<le> 90) \<or>
      (97 \<le> charCode x \<and> charCode x \<le> 122))"

definition hexDigit :: "char \<Rightarrow> bool" where
  \<comment> \<open>the digits and the letters a to f in either case\<close>
  "hexDigit x =
     ((48 \<le> charCode x \<and> charCode x \<le> 57) \<or> (65 \<le> charCode x \<and> charCode x \<le> 70) \<or>
      (97 \<le> charCode x \<and> charCode x \<le> 102))"

definition stripAt :: "string \<Rightarrow> string" where
  \<comment> \<open>a string without its leading \<^verbatim>\<open>@\<close>, if it has one\<close>
  "stripAt s = (case s of [] \<Rightarrow> [] | x # xs \<Rightarrow> if x = CHR ''@'' then xs else s)"

text \<open>A small world for the examples: an IPFS node that serves one tree, and a project directory.\<close>

definition sampleLink :: "string \<Rightarrow> string \<Rightarrow> int \<Rightarrow> link" where
  "sampleLink h n t = \<lparr>Hash = h, Name = n, Type = t\<rparr>"

definition sampleEnv :: env where
  "sampleEnv =
     \<lparr>cwd = [''home'', ''proj''], os_tmpdir = ''/tmp'', random = ''12345'',
      ipfs_settings = Some (''localhost'', ''5001''),
      ipfs_ls = (\<lambda>h. if h = ''QmRoot''
                       then Some [[sampleLink ''QmA'' ''a.txt'' 2, sampleLink ''QmSub'' ''sub'' 1]]
                     else if h = ''QmSub'' then Some [[sampleLink ''QmB'' ''b.txt'' 2]]
                     else None),
      ipfs_cat = (\<lambda>h. if h = ''QmA'' then Some ''X'' else if h = ''QmB'' then Some ''Y'' else None),
      execSync = (\<lambda>cmd dir fs. None),
      dappfile_name = (\<lambda>dir fs. Some ''foo''),
      removeFailure = (\<lambda>k. None)\<rparr>"

definition sampleWorld :: world where
  "sampleWorld = \<lparr>fsys = [[''home''] \<mapsto> Dir, [''home'', ''proj''] \<mapsto> Dir], trace = []\<rparr>"

definition rootHashOf :: "dependency \<Rightarrow> string" where
  \<comment> \<open>the root hash that \<^verbatim>\<open>_pullIPFS\<close> takes from the location\<close>
  "rootHashOf this = regexReplace True ipfsSchemeRegex (getPath this) []"

definition sampleDependency :: dependency where
  \<comment> \<open>what \<^verbatim>\<open>fromDependencyString('@QmRoot')\<close> returns: an IPFS location without a name\<close>
  "sampleDependency =
     \<lparr>name = [], path = ''ipfs://QmRoot'', version = ''QmRoot'',
      packagesDirectory = ''dapple_packages'', installedAt = [], u_tmpDir = None\<rparr>"

definition occupiedWorld :: world where
  \<comment> \<open>a project in which a package named \<^verbatim>\<open>foo\<close> is installed already\<close>
  "occupiedWorld =
     \<lparr>fsys = [[''home''] \<mapsto> Dir, [''home'', ''proj''] \<mapsto> Dir,
              [''home'', ''proj'', ''dapple_packages''] \<mapsto> Dir,
              [''home'', ''proj'', ''dapple_packages'', ''foo''] \<mapsto> Dir,
              [''home'', ''proj'', ''dapple_packages'', ''foo'', ''old.txt''] \<mapsto> File ''old''],
      trace = []\<rparr>"

definition offlineEnv :: env where
  \<comment> \<open>the sample environment with an IPFS node that does not answer\<close>
  "offlineEnv = sampleEnv\<lparr>ipfs_ls := \<lambda>h. None\<rparr>"

definition stickyEnv :: env where
  \<comment> \<open>the sample environment in which every removal fails and removes nothing\<close>
  "stickyEnv = sampleEnv\<lparr>removeFailure := \<lambda>k. Some (\<lambda>q. True)\<rparr>"

definition namedDependency :: dependency where
  \<comment> \<open>what \<^verbatim>\<open>fromDependencyString('bar@QmRoot')\<close> returns\<close>
  "namedDependency =
     \<lparr>name = ''bar'', path = ''ipfs://QmRoot'', version = ''QmRoot'',
      packagesDirectory = ''dapple_packages'', installedAt = [], u_tmpDir = None\<rparr>"

definition fileRootEnv :: env where
  \<comment> \<open>an IPFS node whose root hash addresses a file: \<^verbatim>\<open>ls\<close> answers one object
      without links, \<^verbatim>\<open>cat\<close> answers the content\<close>
  "fileRootEnv = sampleEnv\<lparr>ipfs_ls := \<lambda>h. Some [[]], ipfs_cat := \<lambda>h. Some ''content''\<rparr>"

text \<open>
  The trees of the reconstruction claim: a file with its content, a directory with its named
  children in order, or a node of another type. The IPFS node serves a tree at a hash when
  its answers to \<^verbatim>\<open>ls\<close> and \<^verbatim>\<open>cat\<close> describe it.
\<close>

datatype tree = TFile string | TDir "(string \<times> tree) list" | TOther int

fun typeOf :: "tree \<Rightarrow> int" where
  "typeOf (TFile content) = types_file"
| "typeOf (TDir kids) = types_dir"
| "typeOf (TOther ty) = ty"

fun served :: "env \<Rightarrow> string \<Rightarrow> tree \<Rightarrow> bool"
  and servedKids :: "env \<Rightarrow> link list \<Rightarrow> (string \<times> tree) list \<Rightarrow> bool"
where
  "served E h (TFile content) = (ipfs_cat E h = Some content)"
| "served E h (TDir kids) =
     (case ipfs_ls E h of Some (links # _) \<Rightarrow> servedKids E links kids | _ \<Rightarrow> False)"
| "served E h (TOther ty) = True"
| "servedKids E [] [] = True"
| "servedKids E (l # ls) ((nm, t) # kids) =
     (Name l = nm \<and> Type l = typeOf t \<and> served E (Hash l) t \<and> servedKids E ls kids)"
| "servedKids E [] (kid # kids) = False"
| "servedKids E (l # ls) [] = False"

definition simpleName :: "string \<Rightarrow> bool" where
  \<comment> \<open>a name of one path segment\<close>
  "simpleName nm = (nm \<noteq> [] \<and> CHR ''/'' \<notin> set nm \<and> nm \<noteq> ''.'' \<and> nm \<noteq> ''..'')"

fun wellFormed :: "tree \<Rightarrow> bool"
  and wellFormedKids :: "(string \<times> tree) list \<Rightarrow> bool"
where
  "wellFormed (TFile content) = True"
| "wellFormed (TDir kids) = (distinct (map fst kids) \<and> wellFormedKids kids)"
| "wellFormed (TOther ty) = False"
| "wellFormedKids [] = True"
| "wellFormedKids ((nm, t) # kids) = (simpleName nm \<and> wellFormed t \<and> wellFormedKids kids)"

fun height :: "tree \<Rightarrow> nat"
  and heightKids :: "(string \<times> tree) list \<Rightarrow> nat"
where
  "height (TFile content) = 0"
| "height (TDir kids) = heightKids kids"
| "height (TOther ty) = 0"
| "heightKids [] = 0"
| "heightKids ((nm, t) # kids) = max (Suc (height t)) (heightKids kids)"

fun treeAt :: "tree \<Rightarrow> string list \<Rightarrow> node option"
  and kidsAt :: "(string \<times> tree) list \<Rightarrow> string \<Rightarrow> string list \<Rightarrow> node option"
where
  "treeAt (TFile content) q = (if q = [] then Some (File content) else None)"
| "treeAt (TDir kids) q = (case q of [] \<Rightarrow> Some Dir | x # xs \<Rightarrow> kidsAt kids x xs)"
| "treeAt (TOther ty) q = None"
| "kidsAt [] x xs = None"
| "kidsAt ((nm, t) # kids) x xs = (if x = nm then treeAt t xs else kidsAt kids x xs)"

definition ready :: "fsys \<Rightarrow> string list \<Rightarrow> tree \<Rightarrow> bool" where
  \<comment> \<open>the destination can take the tree: nothing is below it; for a file nothing is
      at it and its parent is a directory; for a directory no file is in the way\<close>
  "ready fs k t =
     (k \<noteq> [] \<and> (\<forall>q. strict_prefix k q \<longrightarrow> fs q = None) \<and>
      (case t of
         TFile content \<Rightarrow> fs k = None \<and> nodeAt fs (butlast k) = Some Dir
       | TDir kids \<Rightarrow> (\<forall>q. prefix q k \<longrightarrow> \<not> isFile (nodeAt fs q))
       | TOther ty \<Rightarrow> True))"

definition expected :: "fsys \<Rightarrow> string list \<Rightarrow> tree \<Rightarrow> fsys" where
  \<comment> \<open>the file system with exactly the tree at and below the destination; for a
      directory, the directories leading to it exist\<close>
  "expected fs k t =
     (\<lambda>q. if prefix k q then treeAt t (drop (length k) q)
          else if typeOf t = types_dir \<and> q \<noteq> [] \<and> prefix q k then Some Dir
          else fs q)"

definition cleanSeg :: "string \<Rightarrow> bool" where
  "cleanSeg s = (s \<noteq> [] \<and> s \<noteq> ''.'' \<and> CHR ''/'' \<notin> set s)"

definition readyKids :: "fsys \<Rightarrow> string list \<Rightarrow> (string \<times> tree) list \<Rightarrow> bool" where
  \<comment> \<open>the directory is there and nothing is where its children will go\<close>
  "readyKids fs k kids =
     (k \<noteq> [] \<and> (\<forall>q. q \<noteq> [] \<and> prefix q k \<longrightarrow> fs q = Some Dir) \<and>
      (\<forall>nm \<in> fst ` set kids. \<forall>q. prefix (k @ [nm]) q \<longrightarrow> fs q = None))"

definition expectedKids :: "fsys \<Rightarrow> string list \<Rightarrow> (string \<times> tree) list \<Rightarrow> fsys" where
  \<comment> \<open>the file system with the children added to the directory\<close>
  "expectedKids fs k kids =
     (\<lambda>q. case (if prefix k q then drop (length k) q else []) of
            [] \<Rightarrow> fs q
          | x # xs \<Rightarrow> if x \<in> fst ` set kids then kidsAt kids x xs else fs q)"

definition sampleTree :: tree where
  \<comment> \<open>the tree that the sample IPFS node serves at \<^verbatim>\<open>QmRoot\<close>\<close>
  "sampleTree = TDir [(''a.txt'', TFile ''X''), (''sub'', TDir [(''b.txt'', TFile ''Y'')])]"

text \<open>
  Trees that may hold nodes of another type: such a type is neither that of a directory nor
  that of a file. The first such node in the order of the walk, with its hash.
\<close>

fun validTree :: "tree \<Rightarrow> bool"
  and validKids :: "(string \<times> tree) list \<Rightarrow> bool"
where
  "validTree (TFile content) = True"
| "validTree (TDir kids) = (distinct (map fst kids) \<and> validKids kids)"
| "validTree (TOther ty) = (ty \<noteq> types_dir \<and> ty \<noteq> types_file)"
| "validKids [] = True"
| "validKids ((nm, t) # kids) = (simpleName nm \<and> validTree t \<and> validKids kids)"

fun firstOther :: "env \<Rightarrow> string \<Rightarrow> tree \<Rightarrow> (int \<times> string) option"
  and firstOtherKids :: "env \<Rightarrow> link list \<Rightarrow> (string \<times> tree) list \<Rightarrow> (int \<times> string) option"
where
  "firstOther E h (TFile content) = None"
| "firstOther E h (TDir kids) =
     (case ipfs_ls E h of Some (links # _) \<Rightarrow> firstOtherKids E links kids | _ \<Rightarrow> None)"
| "firstOther E h (TOther ty) = Some (ty, h)"
| "firstOtherKids E [] kids = None"
| "firstOtherKids E (l # ls) [] = None"
| "firstOtherKids E (l # ls) ((nm, t) # kids) =
     (case firstOther E (Hash l) t of
        Some found \<Rightarrow> Some found
      | None \<Rightarrow> firstOtherKids E ls kids)"

definition oddEnv :: env where
  \<comment> \<open>an IPFS node whose directory \<^verbatim>\<open>sub\<close> has a link of type 7\<close>
  "oddEnv =
     sampleEnv\<lparr>ipfs_ls := \<lambda>h. if h = ''QmRoot''
                               then Some [[sampleLink ''QmA'' ''a.txt'' 2,
                                           sampleLink ''QmSub'' ''sub'' 1]]
                             else Some [[sampleLink ''QmZ'' ''z'' 7,
                                         sampleLink ''QmB'' ''b.txt'' 2]]\<rparr>"

definition oddTree :: tree where
  \<comment> \<open>the tree that this node serves at \<^verbatim>\<open>QmRoot\<close>\<close>
  "oddTree =
     TDir [(''a.txt'', TFile ''X''),
           (''sub'', TDir [(''z'', TOther 7), (''b.txt'', TFile ''Y'')])]"

section \<open>Properties of the matcher\<close>

declare ms.simps(10) [simp del]

lemma set_ms_Star:
  "set (ms ci (Star r) (p, s, c)) =
     insert (p, s, c)
       (\<Union>(p1, s1, c1) \<in> set (ms ci r (p, s, c)).
          if length s1 < length s then set (ms ci (Star r) (p1, s1, c1)) else {})"
  by (subst ms.simps(10)) (auto split: if_splits)

lemma ms_shape:
  "(p', s', c') \<in> set (ms ci r (p, s, c)) \<Longrightarrow> \<exists>w. s = w @ s' \<and> p' = p + length w"
proof (induction ci r "(p, s, c)" arbitrary: p s c p' s' c' rule: ms.induct)
  case (8 ci a b)
  then show ?case by fastforce
next
  case (10 ci r p s c)
  show ?case
  proof (cases "(p', s', c') = (p, s, c)")
    case True
    then show ?thesis by simp
  next
    case False
    with 10(3) obtain p1 s1 c1 where a: "(p1, s1, c1) \<in> set (ms ci r (p, s, c))"
      and b: "length s1 < length s" and c: "(p', s', c') \<in> set (ms ci (Star r) (p1, s1, c1))"
      by (auto simp: set_ms_Star split: if_splits)
    from 10(1)[OF a] obtain w1 where w1: "s = w1 @ s1" "p1 = p + length w1" by blast
    from 10(2)[OF a refl refl b c] obtain w2 where w2: "s1 = w2 @ s'" "p' = p1 + length w2" by auto
    show ?thesis using w1 w2 by (intro exI[of _ "w1 @ w2"]) simp
  qed
next
  case (11 ci r st)
  then show ?case by fastforce
qed (auto split: list.splits if_splits)

lemma ms_atom:
  "isAtom r \<Longrightarrow> ms ci r (p, s, c) =
     (case s of [] \<Rightarrow> [] | x # xs \<Rightarrow> if accepts ci r x then [(Suc p, xs, c)] else [])"
  by (cases r) (auto split: list.splits)

lemma set_ms_Star_atom:
  "isAtom r \<Longrightarrow> set (ms ci (Star r) (p, s, c)) = (\<lambda>k. (p + k, drop k s, c)) ` {..run ci r s}"
proof (induction s arbitrary: p)
  case Nil
  then show ?case by (simp add: set_ms_Star ms_atom run_def)
next
  case (Cons x xs)
  show ?case
  proof (cases "accepts ci r x")
    case False
    then show ?thesis using Cons.prems by (simp add: set_ms_Star ms_atom run_def)
  next
    case True
    have "set (ms ci (Star r) (p, x # xs, c)) =
            insert (p, x # xs, c) (set (ms ci (Star r) (Suc p, xs, c)))"
      using True Cons.prems by (simp add: set_ms_Star[of ci r p "x # xs"] ms_atom)
    also have "\<dots> = insert (p, x # xs, c) ((\<lambda>k. (Suc p + k, drop k xs, c)) ` {..run ci r xs})"
      using Cons.IH[OF Cons.prems] by simp
    also have "\<dots> = (\<lambda>k. (p + k, drop k (x # xs), c)) ` (insert 0 (Suc ` {..run ci r xs}))"
      by (simp add: image_image)
    also have "insert 0 (Suc ` {..run ci r xs}) = {..run ci r (x # xs)}"
      using True by (simp add: run_def atMost_Suc_eq_insert_0)
    finally show ?thesis .
  qed
qed

lemma set_ms_Plus_atom:
  assumes "isAtom r"
  shows "set (ms ci (Plus r) (p, s, c)) = (\<lambda>k. (p + k, drop k s, c)) ` {1..run ci r s}"
proof (cases s)
  case Nil
  then show ?thesis using assms by (simp add: ms_atom run_def)
next
  case (Cons x xs)
  show ?thesis
  proof (cases "accepts ci r x")
    case False
    then show ?thesis using assms Cons by (simp add: ms_atom run_def)
  next
    case True
    have "set (ms ci (Plus r) (p, s, c)) = set (ms ci (Star r) (Suc p, xs, c))"
      using assms True Cons by (simp add: ms_atom)
    also have "\<dots> = (\<lambda>k. (Suc p + k, drop k xs, c)) ` {..run ci r xs}"
      using set_ms_Star_atom[OF assms] by simp
    also have "\<dots> = (\<lambda>k. (p + k, drop k s, c)) ` (Suc ` {..run ci r xs})"
      using Cons by (simp add: image_image)
    also have "Suc ` {..run ci r xs} = {1..run ci r s}"
      using True Cons by (simp add: run_def image_Suc_atMost atLeast1_atMost_eq_remove0)
    finally show ?thesis .
  qed
qed

lemma searchFrom_Bol: "0 < i \<Longrightarrow> searchFrom ci (Cat Bol r) i s = None"
  by (induction s arbitrary: i) simp_all

lemma regexMatch_Bol:
  "regexMatch ci (Cat Bol r) s =
     (case ms ci r (0, s, \<lambda>_. None) of [] \<Rightarrow> None | st # _ \<Rightarrow> Some (0, st))"
  unfolding regexMatch_def
  by (cases s) (simp_all add: searchFrom_Bol split: list.splits)

lemma regexTest_Bol:
  "regexTest ci (Cat Bol r) s \<longleftrightarrow> ms ci r (0, s, \<lambda>_. None) \<noteq> []"
  by (simp add: regexTest_def regexMatch_Bol split: list.splits)

lemma regexMatch_Bol_Some:
  "regexMatch ci (Cat Bol r) s = Some (i, st) \<Longrightarrow> i = 0 \<and> st \<in> set (ms ci r (0, s, \<lambda>_. None))"
  by (auto simp: regexMatch_Bol split: list.splits)

lemma searchFrom_append:
  "ms ci r (i + length q, s, \<lambda>_. None) \<noteq> [] \<Longrightarrow> searchFrom ci r i (q @ s) \<noteq> None"
proof (induction q arbitrary: i)
  case Nil
  then show ?case by (cases s) (auto split: list.splits)
next
  case (Cons x q)
  from Cons.prems have "ms ci r (Suc i + length q, s, \<lambda>_. None) \<noteq> []" by simp
  from Cons.IH[OF this] show ?case by (auto split: list.splits)
qed

subsection \<open>Character classes\<close>

lemma charCode_lt: "charCode x < 256"
  by (simp add: charCode_def)

lemma char_eq_iff: "x = y \<longleftrightarrow> charCode x = charCode y"
  by (simp add: charCode_def)

lemma charCode_char_of: "n < 256 \<Longrightarrow> charCode (char_of n) = n"
  by (simp add: charCode_def)

lemma charCode_toUpper:
  "charCode (toUpper x) =
     (if 97 \<le> charCode x \<and> charCode x \<le> 122 then charCode x - 32 else charCode x)"
  using charCode_lt[of x] by (auto simp: toUpper_def charCode_char_of)

lemma charCode_toLower:
  "charCode (toLower x) =
     (if 65 \<le> charCode x \<and> charCode x \<le> 90 then charCode x + 32 else charCode x)"
  using charCode_lt[of x] by (auto simp: toLower_def charCode_char_of)

lemma charCode_literals:
  "charCode CHR ''a'' = 97" "charCode CHR ''z'' = 122" "charCode CHR ''A'' = 65"
  "charCode CHR ''Z'' = 90" "charCode CHR ''0'' = 48" "charCode CHR ''9'' = 57"
  "charCode CHR ''f'' = 102" "charCode CHR ''@'' = 64" "charCode CHR ''#'' = 35"
  "charCode CHR ''.'' = 46" "charCode CHR ''/'' = 47" "charCode CHR '':'' = 58"
  "charCode CHR ''g'' = 103" "charCode CHR ''i'' = 105" "charCode CHR ''t'' = 116"
  "charCode CHR ''p'' = 112" "charCode CHR ''s'' = 115" "charCode CHR ''Q'' = 81"
  "charCode CHR ''m'' = 109"
  by (simp_all add: charCode_def)

lemma inClass_alnum2: "inClass True [(CHR ''a'', CHR ''z''), (CHR ''0'', CHR ''9'')] x = alnum x"
  unfolding inClass_def inRanges_def alnum_def
  by (simp add: charCode_toUpper charCode_toLower charCode_literals) arith

lemma inClass_alnum3:
  "inClass True [(CHR ''A'', CHR ''Z''), (CHR ''a'', CHR ''z''), (CHR ''0'', CHR ''9'')] x = alnum x"
  unfolding inClass_def inRanges_def alnum_def
  by (simp add: charCode_toUpper charCode_toLower charCode_literals) arith

lemma inClass_hex: "inClass True [(CHR ''a'', CHR ''f''), (CHR ''0'', CHR ''9'')] x = hexDigit x"
  unfolding inClass_def inRanges_def hexDigit_def
  by (simp add: charCode_toUpper charCode_toLower charCode_literals) arith

lemma inClass_atHash:
  "inClass False [(CHR ''@'', CHR ''@''), (CHR ''#'', CHR ''#'')] x =
     (x = CHR ''@'' \<or> x = CHR ''#'')"
  unfolding inClass_def inRanges_def char_eq_iff[of x]
  by (simp add: charCode_literals) arith

lemma canon_eq_iff:
  "canon ci x = canon ci a \<longleftrightarrow>
     (if ci then charCode (toUpper x) = charCode (toUpper a) else charCode x = charCode a)"
  by (simp add: canon_def char_eq_iff)

lemma canon_at: "canon ci x = canon ci CHR ''@'' \<longleftrightarrow> x = CHR ''@''"
  unfolding canon_eq_iff char_eq_iff[of x]
  by (simp add: charCode_toUpper charCode_literals) arith

lemma canon_slash: "canon ci x = canon ci CHR ''/'' \<longleftrightarrow> x = CHR ''/''"
  unfolding canon_eq_iff char_eq_iff[of x]
  by (simp add: charCode_toUpper charCode_literals) arith

lemma canon_dot: "canon ci x = canon ci CHR ''.'' \<longleftrightarrow> x = CHR ''.''"
  unfolding canon_eq_iff char_eq_iff[of x]
  by (simp add: charCode_toUpper charCode_literals) arith

lemma alnum_not_slash: "alnum x \<Longrightarrow> x \<noteq> CHR ''/''"
  unfolding char_eq_iff[of x] alnum_def by (simp add: charCode_literals) arith

lemma alnum_not_dot: "alnum x \<Longrightarrow> x \<noteq> CHR ''.''"
  unfolding char_eq_iff[of x] alnum_def by (simp add: charCode_literals) arith

section \<open>Membership in the list of matches\<close>

lemma searchFrom_Some:
  "searchFrom ci r i s = Some (j, st) \<Longrightarrow>
     \<exists>q t. s = q @ t \<and> j = i + length q \<and> st \<in> set (ms ci r (j, t, \<lambda>_. None))"
proof (induction s arbitrary: i)
  case Nil
  then show ?case by (auto split: list.splits)
next
  case (Cons x xs)
  show ?case
  proof (cases "ms ci r (i, x # xs, \<lambda>_. None)")
    case Nil
    with Cons.prems have "searchFrom ci r (Suc i) xs = Some (j, st)" by simp
    from Cons.IH[OF this] obtain q t where "xs = q @ t" "j = Suc i + length q"
      "st \<in> set (ms ci r (j, t, \<lambda>_. None))" by blast
    then show ?thesis by (intro exI[of _ "x # q"] exI[of _ t]) simp
  next
    case (Cons st' sts)
    with Cons.prems have "j = i" "st = st'" by simp_all
    then show ?thesis using Cons by (intro exI[of _ "[]"] exI[of _ "x # xs"]) simp
  qed
qed

lemma in_ms_Eps: "st' \<in> set (ms ci Eps st) \<longleftrightarrow> st' = st"
  by simp

lemma in_ms_Eol: "st' \<in> set (ms ci Eol (p, s, c)) \<longleftrightarrow> s = [] \<and> st' = (p, s, c)"
  by auto

lemma in_ms_Cat:
  "st' \<in> set (ms ci (Cat a b) st) \<longleftrightarrow>
     (\<exists>p1 s1 c1. (p1, s1, c1) \<in> set (ms ci a st) \<and> st' \<in> set (ms ci b (p1, s1, c1)))"
  by auto

lemma in_ms_Chr:
  "st' \<in> set (ms ci (Chr a) (p, s, c)) \<longleftrightarrow>
     (\<exists>x xs. s = x # xs \<and> canon ci x = canon ci a \<and> st' = (Suc p, xs, c))"
  by (cases s) auto

lemma in_ms_Plus_atom:
  "isAtom r \<Longrightarrow> st' \<in> set (ms ci (Plus r) (p, s, c)) \<longleftrightarrow>
     (\<exists>k. 1 \<le> k \<and> k \<le> run ci r s \<and> st' = (p + k, drop k s, c))"
  unfolding set_ms_Plus_atom by auto

lemma in_ms_Opt:
  "(p', s', c') \<in> set (ms ci (Opt r) (p, s, c)) \<longleftrightarrow>
     (p', s', c') = (p, s, c) \<or> ((p', s', c') \<in> set (ms ci r (p, s, c)) \<and> length s' < length s)"
  by auto

lemma in_ms_Grp:
  "(p', s', c') \<in> set (ms ci (Grp n r) (p, s, c)) \<longleftrightarrow>
     (\<exists>c1. (p', s', c1) \<in> set (ms ci r (p, s, c)) \<and> c' = c1(n := Some (take (p' - p) s)))"
  (is "?L \<longleftrightarrow> ?R")
proof
  assume ?L
  then obtain st where st: "st \<in> set (ms ci r (p, s, c))"
    and eq: "(p', s', c') = (case st of (p', s', c') \<Rightarrow> (p', s', c'(n := Some (take (p' - p) s))))"
    by (auto simp only: ms.simps set_map image_iff)
  obtain p1 s1 c1 where "st = (p1, s1, c1)" by (cases st)
  with st eq show ?R by auto
next
  assume ?R
  then obtain c1 where "(p', s', c1) \<in> set (ms ci r (p, s, c))" "c' = c1(n := Some (take (p' - p) s))"
    by blast
  then show ?L
    by (simp only: ms.simps set_map) (rule image_eqI[where x = "(p', s', c1)"], simp_all)
qed

lemma list_all2_setD: "list_all2 P xs ys \<Longrightarrow> x \<in> set xs \<Longrightarrow> \<exists>y \<in> set ys. P x y"
  by (induction rule: list_all2_induct) auto

lemma in_ms_Lit:
  "st' \<in> set (ms ci (Lit l) (p, s, c)) \<longleftrightarrow>
     (\<exists>w t. s = w @ t \<and> list_all2 (\<lambda>x a. canon ci x = canon ci a) w l \<and>
            st' = (p + length l, t, c))"
  unfolding Lit_def
proof (induction l arbitrary: p s)
  case Nil
  then show ?case by simp
next
  case (Cons a l)
  have "st' \<in> set (ms ci (Seq (map Chr (a # l))) (p, s, c)) \<longleftrightarrow>
      (\<exists>x xs. s = x # xs \<and> canon ci x = canon ci a \<and> st' \<in> set (ms ci (Seq (map Chr l)) (Suc p, xs, c)))"
    by (cases s) auto
  also have "\<dots> \<longleftrightarrow> (\<exists>x xs. s = x # xs \<and> canon ci x = canon ci a \<and>
      (\<exists>w t. xs = w @ t \<and> list_all2 (\<lambda>x a. canon ci x = canon ci a) w l \<and> st' = (Suc p + length l, t, c)))"
    unfolding Cons.IH ..
  also have "\<dots> \<longleftrightarrow> (\<exists>w t. s = w @ t \<and> list_all2 (\<lambda>x a. canon ci x = canon ci a) w (a # l) \<and>
            st' = (p + length (a # l), t, c))" (is "?L \<longleftrightarrow> ?R")
  proof
    assume ?L
    then obtain x xs w t where "s = x # xs" "canon ci x = canon ci a" "xs = w @ t"
      "list_all2 (\<lambda>x a. canon ci x = canon ci a) w l" "st' = (Suc p + length l, t, c)" by blast
    then show ?R by (intro exI[of _ "x # w"] exI[of _ t]) simp
  next
    assume ?R
    then obtain w t where w: "s = w @ t" "list_all2 (\<lambda>x a. canon ci x = canon ci a) w (a # l)"
      "st' = (p + length (a # l), t, c)" by blast
    then obtain x w' where "w = x # w'" "canon ci x = canon ci a" "list_all2 (\<lambda>x a. canon ci x = canon ci a) w' l"
      by (auto simp: list_all2_Cons2)
    then show ?L using w by auto
  qed
  finally show ?case .
qed

lemma run_take: "k \<le> run ci r s \<Longrightarrow> x \<in> set (take k s) \<Longrightarrow> accepts ci r x"
proof (induction s arbitrary: k)
  case Nil
  then show ?case by simp
next
  case (Cons y ys)
  then show ?case by (cases k) (auto simp: run_def split: if_splits)
qed

lemma hasGitPath_dot: "hasGitPath this \<Longrightarrow> CHR ''.'' \<in> set (path this)"
proof -
  assume "hasGitPath this"
  then obtain j st where "searchFrom True (Seq [Chr CHR ''.'', Lit ''git'', Eol]) 0 (path this) = Some (j, st)"
    by (auto simp: hasGitPath_def regexTest_def regexMatch_def)
  from searchFrom_Some[OF this] obtain q t where qt: "path this = q @ t"
    and m: "st \<in> set (ms True (Seq [Chr CHR ''.'', Lit ''git'', Eol]) (j, t, \<lambda>_. None))" by blast
  from m obtain x xs where "t = x # xs" "canon True x = canon True CHR ''.''"
    unfolding Seq.simps in_ms_Cat in_ms_Chr by blast
  then show ?thesis using qt by (simp add: canon_dot)
qed

lemma canon_not_dot: "canon ci x = canon ci a \<Longrightarrow> a \<noteq> CHR ''.'' \<Longrightarrow> x \<noteq> CHR ''.''"
  using canon_dot[of ci a] by auto

lemma hasIPFSPath_no_dot: "hasIPFSPath this \<Longrightarrow> CHR ''.'' \<notin> set (path this)"
proof -
  let ?cls = "Cls [(CHR ''A'', CHR ''Z''), (CHR ''a'', CHR ''z''), (CHR ''0'', CHR ''9'')]"
  assume "hasIPFSPath this"
  then have "ms True (Seq [Lit ''ipfs://'', Plus ?cls, Eol]) (0, path this, \<lambda>_. None) \<noteq> []"
    unfolding hasIPFSPath_def Seq.simps regexTest_Bol .
  then obtain st where m: "st \<in> set (ms True (Seq [Lit ''ipfs://'', Plus ?cls, Eol]) (0, path this, \<lambda>_. None))"
    using last_in_set by blast
  have at: "isAtom ?cls" by simp
  from m obtain w t k where p: "path this = w @ t"
    and w: "list_all2 (\<lambda>x a. canon True x = canon True a) w ''ipfs://''"
    and k: "k \<le> run True ?cls t" "drop k t = []"
    unfolding Seq.simps in_ms_Cat in_ms_Lit in_ms_Plus_atom[OF at] in_ms_Eol in_ms_Eps
    by (elim exE conjE) (simp only: prod.inject)
  have "\<forall>x \<in> set w. x \<noteq> CHR ''.''"
  proof
    fix x assume "x \<in> set w"
    from list_all2_setD[OF w this] obtain a where a: "a \<in> set ''ipfs://''" "canon True x = canon True a"
      by blast
    from a(1) have "a \<noteq> CHR ''.''" by auto
    with a(2) show "x \<noteq> CHR ''.''" by (rule canon_not_dot)
  qed
  moreover have "\<forall>x \<in> set t. x \<noteq> CHR ''.''"
  proof
    fix x assume "x \<in> set t"
    with k have "x \<in> set (take k t)" by simp
    from run_take[OF k(1) this] have "alnum x" by (simp add: inClass_alnum3)
    then show "x \<noteq> CHR ''.''" by (rule alnum_not_dot)
  qed
  ultimately show ?thesis using p by auto
qed

lemma ipfs_not_git: "hasIPFSPath this \<Longrightarrow> \<not> hasGitPath this"
  using hasGitPath_dot hasIPFSPath_no_dot by blast

section \<open>The constructor\<close>

lemma hasGitPath_suffix: "path this = q @ ''.git'' \<Longrightarrow> hasGitPath this"
  unfolding hasGitPath_def regexTest_def regexMatch_def
  by (simp add: Lit_def searchFrom_append[where i = 0, simplified])

text \<open>
  Claim C4. Constructing a descriptor whose source location ends in \<^verbatim>\<open>.git\<close> with an
  empty (or absent) version fails with the missing-version error, whatever the rest of the
  location and the name are; no descriptor is returned.
\<close>

theorem constructor_rejects_unpinned_git:
  "\<not> truthy v \<Longrightarrow> Dependency (Some (q @ ''.git'')) v n = Inl MissingVersionError"
  by (simp add: Dependency_def Let_def truthy_def hasGitPath_suffix)

theorem constructor_rejects_unpinned_git_witness:
  "\<not> truthy (Some []) \<and>
   Dependency (Some ''https://example.org/repo.git'') (Some []) (Some ''repo'')
     = Inl MissingVersionError"
  using constructor_rejects_unpinned_git[of "Some []" "''https://example.org/repo''" "Some ''repo''"]
  by (simp add: truthy_def)

section \<open>The parser\<close>

text \<open>
  The parser returns a descriptor, the missing-version error of the constructor, or the
  \<^verbatim>\<open>TypeError\<close> of reading an element of \<^verbatim>\<open>null\<close> when the generic pattern does not
  match. The two examples of the specification parse as it says.
\<close>

lemma Dependency_errors: "Dependency p v n = Inl e \<Longrightarrow> e = MissingVersionError"
  by (auto simp: Dependency_def Let_def split: if_splits)

lemma undefined_not_ipfs: "\<not> regexTest True ipfsRegex ''undefined''"
  by code_simp

lemma parse_errors:
  assumes "fromDependencyString s n = Inl e"
  shows "e = MissingVersionError \<or> e = TypeError ''Cannot read property 2 of null''"
proof (cases "regexTest True gitPathRegex s")
  case True
  with assms show ?thesis
    by (auto simp: fromDependencyString_def split: option.splits dest: Dependency_errors)
next
  case False
  show ?thesis
  proof (cases "regexExec False pathRegex s")
    case None
    with assms False show ?thesis by (simp add: fromDependencyString_def)
  next
    case (Some c)
    show ?thesis
    proof (cases "regexTest True ipfsRegex (toStr (jsOr (c 2) (c 1)))")
      case t: True
      then have "jsOr (c 2) (c 1) \<noteq> None"
        using undefined_not_ipfs by (cases "jsOr (c 2) (c 1)") (auto simp: toStr_def)
      with assms False Some t show ?thesis
        by (auto simp: fromDependencyString_def Let_def split: option.splits dest: Dependency_errors)
    next
      case f: False
      with assms False Some show ?thesis
        by (auto simp: fromDependencyString_def Let_def dest: Dependency_errors)
    qed
  qed
qed

lemma parse_examples:
  "fromDependencyString ''path.git@abc123'' None =
     Inr \<lparr>name = [], path = ''path.git'', version = ''abc123'',
          packagesDirectory = ''dapple_packages'', installedAt = [], u_tmpDir = None\<rparr>"
  "fromDependencyString ''@QmXYZ'' None =
     Inr \<lparr>name = [], path = ''ipfs://QmXYZ'', version = ''QmXYZ'',
          packagesDirectory = ''dapple_packages'', installedAt = [], u_tmpDir = None\<rparr>"
  "hasIPFSPath \<lparr>name = [], path = ''ipfs://QmXYZ'', version = ''QmXYZ'',
          packagesDirectory = ''dapple_packages'', installedAt = [], u_tmpDir = None\<rparr>"
  by code_simp+

lemma sample_descriptors:
  "fromDependencyString ''@QmRoot'' None = Inr sampleDependency"
  "fromDependencyString ''bar@QmRoot'' None = Inr namedDependency"
  by code_simp+

text \<open>
  Claim C2. The claim asks that every input string yields a descriptor or a parse error.
  On \<^verbatim>\<open>a#b\<close> neither pattern matches: \<^verbatim>\<open>pathRegex.exec\<close> returns \<^verbatim>\<open>null\<close>, and
  reading its element 2 raises a \<^verbatim>\<open>TypeError\<close>.
\<close>

theorem parse_hash_sign_crashes:
  "fromDependencyString ''a#b'' None = Inl (TypeError ''Cannot read property 2 of null'')"
  by code_simp

text \<open>
  Claim C1, as stated, fails: the display string has no separator between the location
  and the version. The git form \<^verbatim>\<open>path.git@abc123\<close> is displayed as
  \<^verbatim>\<open>path.gitabc123\<close>, which parses to another descriptor.
\<close>

theorem toString_roundtrip_counterexample:
  "fromDependencyString ''path.git@abc123'' None =
     Inr \<lparr>name = [], path = ''path.git'', version = ''abc123'',
          packagesDirectory = ''dapple_packages'', installedAt = [], u_tmpDir = None\<rparr> \<and>
   toString \<lparr>name = [], path = ''path.git'', version = ''abc123'',
          packagesDirectory = ''dapple_packages'', installedAt = [], u_tmpDir = None\<rparr>
     = ''path.gitabc123'' \<and>
   fromDependencyString ''path.gitabc123'' None =
     Inr \<lparr>name = [], path = ''path.gitabc123'', version = [],
          packagesDirectory = ''dapple_packages'', installedAt = [], u_tmpDir = None\<rparr> \<and>
   fromDependencyString
       (toString \<lparr>name = [], path = ''path.git'', version = ''abc123'',
          packagesDirectory = ''dapple_packages'', installedAt = [], u_tmpDir = None\<rparr>) None
     \<noteq> Inr \<lparr>name = [], path = ''path.git'', version = ''abc123'',
          packagesDirectory = ''dapple_packages'', installedAt = [], u_tmpDir = None\<rparr>"
  by code_simp

section \<open>Fetching from git\<close>

lemma ms_Cat_nonempty:
  "ms ci (Cat a b) st \<noteq> [] \<longleftrightarrow> (\<exists>st1 \<in> set (ms ci a st). ms ci b st1 \<noteq> [])"
  by auto

lemma run_le: "run ci r s \<le> length s"
  by (simp add: run_def length_takeWhile_le)

lemma run_eq_length: "run ci r s = length s \<longleftrightarrow> (\<forall>x \<in> set s. accepts ci r x)"
  by (induction s) (auto simp: run_def)

lemma full_Plus_atom:
  assumes "isAtom r"
  shows "ms ci (Cat (Plus r) (Cat Eol Eps)) (p, s, c) \<noteq> [] \<longleftrightarrow>
           s \<noteq> [] \<and> (\<forall>x \<in> set s. accepts ci r x)"
proof -
  have "ms ci (Cat (Plus r) (Cat Eol Eps)) (p, s, c) \<noteq> [] \<longleftrightarrow>
          (\<exists>k \<in> {1..run ci r s}. drop k s = [])"
    unfolding ms_Cat_nonempty[of ci "Plus r"] set_ms_Plus_atom[OF assms] by simp
  also have "\<dots> \<longleftrightarrow> 1 \<le> length s \<and> run ci r s = length s"
    using run_le[of ci r s] by (auto intro: bexI[of _ "length s"])
  also have "\<dots> \<longleftrightarrow> s \<noteq> [] \<and> (\<forall>x \<in> set s. accepts ci r x)"
    using run_eq_length[of ci r s] by (cases s) simp_all
  finally show ?thesis .
qed

lemma hexRegex_test: "regexTest True hexRegex s \<longleftrightarrow> s \<noteq> [] \<and> (\<forall>x \<in> set s. hexDigit x)"
  unfolding hexRegex_def Seq.simps regexTest_Bol
  by (simp only: full_Plus_atom isAtom.simps accepts.simps inClass_hex)

lemma atRegex_replace: "regexReplace False atRegex s [] = stripAt s"
  unfolding atRegex_def Seq.simps regexReplace_def regexMatch_Bol stripAt_def
  by (cases s) (simp_all add: canon_def)

lemma constructed_git_hasVersion:
  "Dependency p v n = Inr this \<Longrightarrow> hasGitPath this \<Longrightarrow> hasVersion this"
  by (auto simp: Dependency_def Let_def hasVersion_def truthy_def split: if_splits option.splits)

text \<open>
  Claim C6. For a descriptor built by the constructor whose location is a git location and
  whose version, without a leading \<^verbatim>\<open>@\<close>, is not a non-empty string of hexadecimal
  digits, the git fetch and \<^verbatim>\<open>pull\<close> fail with the invalid-commit error and leave the
  world as it was: no process is spawned and nothing is recorded in the trace.
\<close>

theorem git_fetch_rejects_non_hex:
  assumes "Dependency p v n = Inr this" and "hasGitPath this"
    and "stripAt (getVersion this) = [] \<or> (\<exists>x \<in> set (stripAt (getVersion this)). \<not> hexDigit x)"
  shows "u_pullGit E this target w = (Inl (InvalidCommitError (stripAt (getVersion this))), w) \<and>
         pull k E this target w = Some (Inl (InvalidCommitError (stripAt (getVersion this))), w)"
proof -
  have v: "hasVersion this" using assms(1,2) by (rule constructed_git_hasVersion)
  have h: "\<not> regexTest True hexRegex (stripAt (getVersion this))"
    using assms(3) by (auto simp: hexRegex_test)
  have "u_pullGit E this target w = (Inl (InvalidCommitError (stripAt (getVersion this))), w)"
    using v h by (simp add: u_pullGit_def Let_def atRegex_replace)
  then show ?thesis using assms(2) by (simp add: pull_def)
qed

theorem git_fetch_rejects_non_hex_witness:
  "Dependency (Some ''repo.git'') (Some ''not-hex!!'') None =
     Inr \<lparr>name = [], path = ''repo.git'', version = ''not-hex!!'',
          packagesDirectory = ''dapple_packages'', installedAt = [], u_tmpDir = None\<rparr> \<and>
   hasGitPath \<lparr>name = [], path = ''repo.git'', version = ''not-hex!!'',
          packagesDirectory = ''dapple_packages'', installedAt = [], u_tmpDir = None\<rparr> \<and>
   \<not> hexDigit CHR ''n'' \<and>
   pull 0 sampleEnv
     \<lparr>name = [], path = ''repo.git'', version = ''not-hex!!'',
      packagesDirectory = ''dapple_packages'', installedAt = [], u_tmpDir = None\<rparr>
     ''dapple_packages/repo'' sampleWorld
     = Some (Inl (InvalidCommitError ''not-hex!!''), sampleWorld)"
proof -
  let ?d = "\<lparr>name = [], path = ''repo.git'', version = ''not-hex!!'',
          packagesDirectory = ''dapple_packages'', installedAt = [], u_tmpDir = None\<rparr>"
  have g: "hasGitPath ?d" by (rule hasGitPath_suffix[of _ "''repo''"]) simp
  have c: "Dependency (Some ''repo.git'') (Some ''not-hex!!'') None = Inr ?d"
    using g by (simp add: Dependency_def truthy_def)
  have n: "\<not> hexDigit CHR ''n''" by (simp add: hexDigit_def charCode_def)
  have s: "stripAt (getVersion ?d) = ''not-hex!!''" by (simp add: stripAt_def getVersion_def)
  have "stripAt (getVersion ?d) = [] \<or> (\<exists>x \<in> set (stripAt (getVersion ?d)). \<not> hexDigit x)"
    unfolding s using n by simp
  from git_fetch_rejects_non_hex[OF c g this, of sampleEnv "''dapple_packages/repo''" sampleWorld 0]
  show ?thesis using c g n s by simp
qed

section \<open>Fetching from IPFS\<close>

lemma fsys_logEvent: "fsys (logEvent e w) = fsys w"
  by (simp add: logEvent_def)

lemma trace_logEvent: "trace (logEvent e w) = trace w @ [e]"
  by (simp add: logEvent_def)

lemma mkdirs_keeps_Dir: "mkdirs fs k = Inr fs' \<Longrightarrow> nodeAt fs q = Some Dir \<Longrightarrow> nodeAt fs' q = Some Dir"
  by (auto simp: mkdirs_def nodeAt_def split: if_splits)

lemma mkdirs_makes_Dir: "mkdirs fs k = Inr fs' \<Longrightarrow> nodeAt fs' k = Some Dir"
  by (auto simp: mkdirs_def nodeAt_def split: if_splits)

lemma writeFileSync_keeps_Dir:
  "writeFileSync E fs p content = Inr fs' \<Longrightarrow> nodeAt fs q = Some Dir \<Longrightarrow> nodeAt fs' q = Some Dir"
  by (auto simp: writeFileSync_def nodeAt_def Let_def split: if_splits)

lemma pull_keeps_Dir:
  "(pullIPFS k E root h dest ty w = Some (r, w') \<longrightarrow> nodeAt (fsys w) q = Some Dir \<longrightarrow> nodeAt (fsys w') q = Some Dir)"
  "(pullLinks k E root links dest w = Some (r, w') \<longrightarrow> nodeAt (fsys w) q = Some Dir \<longrightarrow> nodeAt (fsys w') q = Some Dir)"
proof (induction k E root h dest ty w and k E root links dest w arbitrary: r w' and r w' rule: pullIPFS_pullLinks.induct)
  case (1 E rootHash hash dest ty w)
  then show ?case by simp
next
  case (2 k E rootHash hash dest ty w)
  show ?case
  proof (intro impI)
    assume a: "pullIPFS (Suc k) E rootHash hash dest ty w = Some (r, w')" and d: "nodeAt (fsys w) q = Some Dir"
    show "nodeAt (fsys w') q = Some Dir"
    proof (cases "ty = types_dir")
      case True
      show ?thesis
      proof (cases "ensureDirSync E (fsys w) dest")
        case (Inl e)
        with a True d show ?thesis by simp
      next
        case (Inr fs1)
        have d1: "nodeAt fs1 q = Some Dir" using Inr d by (auto simp: ensureDirSync_def dest: mkdirs_keeps_Dir)
        show ?thesis
        proof (cases "ipfs_ls E hash")
          case None
          with a True Inr d1 show ?thesis by (auto simp: Let_def fsys_logEvent)
        next
          case (Some objs)
          show ?thesis
          proof (cases objs)
            case Nil
            with a True Inr d1 Some show ?thesis by (auto simp: Let_def fsys_logEvent)
          next
            case (Cons links rest)
            with a True Inr Some have "pullLinks k E rootHash links dest (logEvent (IpfsLs hash) (w\<lparr>fsys := fs1\<rparr>)) = Some (r, w')"
              by (simp add: Let_def)
            with 2[OF True Inr refl Some Cons, of r w'] d1 show ?thesis by (simp add: fsys_logEvent)
          qed
        qed
      qed
    next
      case False
      with a d show ?thesis
        by (auto simp: Let_def fsys_logEvent split: if_splits option.splits sum.splits dest: writeFileSync_keeps_Dir)
    qed
  qed
next
  case (3 k E rootHash dest w)
  then show ?case by simp
next
  case (4 k E rootHash l ls dest w)
  show ?case
  proof (intro impI)
    assume a: "pullLinks k E rootHash (l # ls) dest w = Some (r, w')" and d: "nodeAt (fsys w) q = Some Dir"
    then obtain r1 w1 where 1: "pullIPFS k E rootHash (Hash l) (pathJoin [dest, Name l]) (Type l) w = Some (r1, w1)"
      by (auto split: option.splits)
    with 4(1)[of r1 w1] d have d1: "nodeAt (fsys w1) q = Some Dir" by simp
    show "nodeAt (fsys w') q = Some Dir"
    proof (cases r1)
      case (Inl e)
      with a 1 d1 show ?thesis by simp
    next
      case (Inr u)
      with a 1 have "pullLinks k E rootHash ls dest w1 = Some (r, w')" by simp
      with 4(2)[OF 1 refl Inr, of r w'] d1 show ?thesis by simp
    qed
  qed
qed



lemma pullIPFS_dir_result:
  assumes "pullIPFS k E root h dest types_dir w = Some (r, w')"
  shows "nodeAt (fsys w') (resolve E dest) = Some Dir \<or> (fsys w' = fsys w \<and> r \<noteq> Inr ())"
proof (cases k)
  case 0
  with assms show ?thesis by simp
next
  case (Suc j)
  show ?thesis
  proof (cases "ensureDirSync E (fsys w) dest")
    case (Inl e)
    with assms Suc show ?thesis by auto
  next
    case (Inr fs1)
    then have d1: "nodeAt fs1 (resolve E dest) = Some Dir"
      by (auto simp: ensureDirSync_def dest: mkdirs_makes_Dir)
    let ?w1 = "logEvent (IpfsLs h) (w\<lparr>fsys := fs1\<rparr>)"
    have f1: "nodeAt (fsys ?w1) (resolve E dest) = Some Dir" using d1 by (simp add: fsys_logEvent)
    show ?thesis
    proof (cases "ipfs_ls E h")
      case None
      with assms Suc Inr f1 show ?thesis by (auto simp: Let_def)
    next
      case (Some objs)
      show ?thesis
      proof (cases objs)
        case Nil
        with assms Suc Inr f1 Some show ?thesis by (auto simp: Let_def)
      next
        case (Cons links rest)
        with assms Suc Inr Some have "pullLinks j E root links dest ?w1 = Some (r, w')"
          by (simp add: Let_def)
        with pull_keeps_Dir(2)[of j E root links dest ?w1 r w' "resolve E dest"] f1
        show ?thesis by simp
      qed
    qed
  qed
qed

lemma u_pullIPFS_probe_ok:
  assumes "ipfs_settings E = Some st" and "ipfs_ls E (rootHashOf this) = Some objs"
  shows "u_pullIPFS k E this target w
           = pullIPFS k E (rootHashOf this) (rootHashOf this) target types_dir
               (logEvent (IpfsLs (rootHashOf this)) w)"
  using assms by (simp add: u_pullIPFS_def Let_def rootHashOf_def)

lemma u_pullIPFS_success_Dir:
  assumes "u_pullIPFS k E this target w = Some (Inr (), w')"
  shows "nodeAt (fsys w') (resolve E target) = Some Dir"
proof -
  from assms obtain st objs where s: "ipfs_settings E = Some st" "ipfs_ls E (rootHashOf this) = Some objs"
    by (auto simp: u_pullIPFS_def Let_def rootHashOf_def split: option.splits)
  from assms[unfolded u_pullIPFS_probe_ok[OF s]] pullIPFS_dir_result show ?thesis by blast
qed

text \<open>
  Claim C7. When the IPFS settings are there and the listing of the root hash throws, the
  IPFS fetch (and \<^verbatim>\<open>pull\<close>, for an IPFS location) fails with the connection error.
  The only effect is the record of the probe in the trace: the file system is the one before
  the call, so the destination exists afterwards only if it existed before.
\<close>

theorem ipfs_probe_failure:
  assumes "ipfs_settings E = Some st" and "ipfs_ls E (rootHashOf this) = None"
  shows "u_pullIPFS k E this target w
           = Some (Inl IPFSConnectionError, logEvent (IpfsLs (rootHashOf this)) w) \<and>
         (hasIPFSPath this \<longrightarrow>
            pull k E this target w
              = Some (Inl IPFSConnectionError, logEvent (IpfsLs (rootHashOf this)) w)) \<and>
         fsys (logEvent (IpfsLs (rootHashOf this)) w) = fsys w \<and>
         accessSync E (fsys (logEvent (IpfsLs (rootHashOf this)) w)) target
           = accessSync E (fsys w) target"
  using assms ipfs_not_git[of this]
  by (auto simp: u_pullIPFS_def pull_def Let_def rootHashOf_def fsys_logEvent)

theorem ipfs_probe_failure_witness:
  "ipfs_settings offlineEnv = Some (''localhost'', ''5001'') \<and>
   ipfs_ls offlineEnv (rootHashOf sampleDependency) = None \<and>
   hasIPFSPath sampleDependency \<and>
   pull 3 offlineEnv sampleDependency ''dapple_packages/foo'' sampleWorld
     = Some (Inl IPFSConnectionError, logEvent (IpfsLs ''QmRoot'') sampleWorld) \<and>
   \<not> accessSync offlineEnv (fsys (logEvent (IpfsLs ''QmRoot'') sampleWorld)) ''dapple_packages/foo''"
proof -
  have 1: "ipfs_settings offlineEnv = Some (''localhost'', ''5001'')"
    by (simp add: offlineEnv_def sampleEnv_def)
  have 2: "ipfs_ls offlineEnv (rootHashOf sampleDependency) = None"
    by (simp add: offlineEnv_def)
  have 3: "hasIPFSPath sampleDependency" by code_simp
  have 4: "rootHashOf sampleDependency = ''QmRoot''" by code_simp
  have 5: "\<not> accessSync offlineEnv (fsys sampleWorld) ''dapple_packages/foo''" by code_simp
  from ipfs_probe_failure[OF 1 2, of 3 "''dapple_packages/foo''" sampleWorld] 1 2 3 4 5
  show ?thesis by simp
qed

text \<open>
  Claim C10. Once the probe has succeeded, the IPFS fetch is the reconstruction of the root
  hash with the type of a directory, whatever the hash addresses: it first creates the
  destination as a directory, then lists the root and walks the links of the first object.
  The content of the root is never read for the destination: when the fetch returns, the
  destination is a directory, or the creation of the directory failed and the file system
  is unchanged.
\<close>

theorem ipfs_root_is_pulled_as_directory:
  assumes "ipfs_settings E = Some st" and "ipfs_ls E (rootHashOf this) = Some objs"
  shows "u_pullIPFS k E this target w
           = pullIPFS k E (rootHashOf this) (rootHashOf this) target types_dir
               (logEvent (IpfsLs (rootHashOf this)) w) \<and>
         u_pullIPFS (Suc k) E this target w
           = (case ensureDirSync E (fsys w) target of
                Inl e \<Rightarrow> Some (Inl e, logEvent (IpfsLs (rootHashOf this)) w)
              | Inr fs1 \<Rightarrow>
                  (case objs of
                     [] \<Rightarrow> Some (Inl (TypeError ''Cannot read property Links of undefined''),
                                 logEvent (IpfsLs (rootHashOf this))
                                   (logEvent (IpfsLs (rootHashOf this)) w\<lparr>fsys := fs1\<rparr>))
                   | links # _ \<Rightarrow>
                       pullLinks k E (rootHashOf this) links target
                         (logEvent (IpfsLs (rootHashOf this))
                            (logEvent (IpfsLs (rootHashOf this)) w\<lparr>fsys := fs1\<rparr>)))) \<and>
         (case u_pullIPFS k E this target w of
            None \<Rightarrow> True
          | Some (r, w') \<Rightarrow>
              nodeAt (fsys w') (resolve E target) = Some Dir \<or> (fsys w' = fsys w \<and> r \<noteq> Inr ()))"
proof -
  note 1 = u_pullIPFS_probe_ok[OF assms]
  have 2: "u_pullIPFS (Suc k) E this target w
           = (case ensureDirSync E (fsys w) target of
                Inl e \<Rightarrow> Some (Inl e, logEvent (IpfsLs (rootHashOf this)) w)
              | Inr fs1 \<Rightarrow>
                  (case objs of
                     [] \<Rightarrow> Some (Inl (TypeError ''Cannot read property Links of undefined''),
                                 logEvent (IpfsLs (rootHashOf this))
                                   (logEvent (IpfsLs (rootHashOf this)) w\<lparr>fsys := fs1\<rparr>))
                   | links # _ \<Rightarrow>
                       pullLinks k E (rootHashOf this) links target
                         (logEvent (IpfsLs (rootHashOf this))
                            (logEvent (IpfsLs (rootHashOf this)) w\<lparr>fsys := fs1\<rparr>))))"
    unfolding 1 using assms(2)
    by (simp add: Let_def fsys_logEvent split: sum.splits list.splits)
  have 3: "nodeAt (fsys w') (resolve E target) = Some Dir \<or> (fsys w' = fsys w \<and> r \<noteq> Inr ())"
    if "u_pullIPFS k E this target w = Some (r, w')" for r w'
    using pullIPFS_dir_result[OF that[unfolded 1]] by (simp add: fsys_logEvent)
  from 1 2 3 show ?thesis by (auto split: option.splits)
qed

theorem ipfs_root_is_pulled_as_directory_witness:
  "ipfs_settings fileRootEnv = Some (''localhost'', ''5001'') \<and>
   ipfs_ls fileRootEnv (rootHashOf sampleDependency) = Some [[]] \<and>
   (case u_pullIPFS 3 fileRootEnv sampleDependency ''/home/proj/dest'' sampleWorld of
      None \<Rightarrow> False
    | Some (r, w') \<Rightarrow>
        r = Inr () \<and> nodeAt (fsys w') (resolve fileRootEnv ''/home/proj/dest'') = Some Dir \<and>
        trace w' = [IpfsLs ''QmRoot'', IpfsLs ''QmRoot''])"
proof -
  have 1: "ipfs_settings fileRootEnv = Some (''localhost'', ''5001'')"
    by (simp add: fileRootEnv_def sampleEnv_def)
  have 2: "ipfs_ls fileRootEnv (rootHashOf sampleDependency) = Some [[]]"
    by (simp add: fileRootEnv_def)
  have 3: "(case u_pullIPFS 3 fileRootEnv sampleDependency ''/home/proj/dest'' sampleWorld of
      None \<Rightarrow> False
    | Some (r, w') \<Rightarrow> r = Inr () \<and> trace w' = [IpfsLs ''QmRoot'', IpfsLs ''QmRoot''])"
    by code_simp
  from ipfs_root_is_pulled_as_directory[OF 1 2, of 3 "''/home/proj/dest''" sampleWorld] 1 2 3
  show ?thesis by (auto split: option.splits)
qed

section \<open>Installing twice\<close>

text \<open>
  Claim C5. For a dependency with a name: when the directory of that name in the package
  directory is readable, \<^verbatim>\<open>install\<close> fails with the already-installed error and
  returns the world unchanged, so nothing was fetched and no process was spawned. After a
  successful install from an IPFS location the directory is there, so a second install
  fails in this way.
\<close>

lemma already_installed:
  assumes "getName this \<noteq> []"
    and "accessSync E (fsys w) (pathJoin [packagesDirectory this, getName this])"
  shows "install k E this w = Some (Inl (AlreadyInstalledError (getName this)), this, w)"
  using assms by (simp add: install_def u_throwIfInstalled_def Let_def)

theorem second_install_fails_before_fetch:
  assumes "getName this \<noteq> []"
  shows "(accessSync E (fsys w) (pathJoin [packagesDirectory this, getName this]) \<longrightarrow>
           install k E this w = Some (Inl (AlreadyInstalledError (getName this)), this, w)) \<and>
         (\<not> hasGitPath this \<longrightarrow> install k E this w = Some (Inr (), this1, w1) \<longrightarrow>
           install j E this1 w1 = Some (Inl (AlreadyInstalledError (getName this)), this1, w1))"
proof (intro conjI impI)
  assume "accessSync E (fsys w) (pathJoin [packagesDirectory this, getName this])"
  with assms show "install k E this w = Some (Inl (AlreadyInstalledError (getName this)), this, w)"
    by (rule already_installed)
next
  let ?target = "pathJoin [packagesDirectory this, getName this]"
  assume g: "\<not> hasGitPath this" and i: "install k E this w = Some (Inr (), this1, w1)"
  from i assms obtain w0 where p: "pull k E this ?target w0 = Some (Inr (), w1)"
    and t: "this1 = this\<lparr>installedAt := ?target\<rparr>"
    by (auto simp: install_def Let_def split: option.splits prod.splits sum.splits if_splits)
  from p g have u: "u_pullIPFS k E this ?target w0 = Some (Inr (), w1)"
    by (auto simp: pull_def split: if_splits)
  have "nodeAt (fsys w1) (resolve E ?target) = Some Dir"
    using u by (rule u_pullIPFS_success_Dir)
  then have a: "accessSync E (fsys w1) (pathJoin [packagesDirectory this1, getName this1])"
    using t by (simp add: accessSync_def getName_def)
  have n: "getName this1 = getName this" using t by (simp add: getName_def)
  from already_installed[of this1 E w1 j] a n assms
  show "install j E this1 w1 = Some (Inl (AlreadyInstalledError (getName this)), this1, w1)" by simp
qed

theorem second_install_fails_before_fetch_witness:
  "getName namedDependency \<noteq> [] \<and> \<not> hasGitPath namedDependency \<and>
   fst (the (install 3 sampleEnv namedDependency sampleWorld)) = Inr () \<and>
   accessSync sampleEnv (fsys (snd (snd (the (install 3 sampleEnv namedDependency sampleWorld)))))
     (pathJoin [packagesDirectory namedDependency, getName namedDependency]) \<and>
   install 3 sampleEnv
       (fst (snd (the (install 3 sampleEnv namedDependency sampleWorld))))
       (snd (snd (the (install 3 sampleEnv namedDependency sampleWorld))))
     = Some (Inl (AlreadyInstalledError ''bar''),
             fst (snd (the (install 3 sampleEnv namedDependency sampleWorld))),
             snd (snd (the (install 3 sampleEnv namedDependency sampleWorld))))"
proof -
  let ?x = "install 3 sampleEnv namedDependency sampleWorld"
  have 1: "getName namedDependency \<noteq> []" by (simp add: getName_def namedDependency_def)
  have 2: "\<not> hasGitPath namedDependency" by code_simp
  have 3: "?x \<noteq> None" by code_simp
  have 4: "fst (the ?x) = Inr ()" by code_simp
  have 5: "?x = Some (Inr (), fst (snd (the ?x)), snd (snd (the ?x)))"
    using 3 4 by (cases ?x) (auto simp: prod_eq_iff)
  have 6: "getName namedDependency = ''bar''" by (simp add: getName_def namedDependency_def)
  have 7: "accessSync sampleEnv (fsys (snd (snd (the ?x))))
             (pathJoin [packagesDirectory namedDependency, getName namedDependency])"
    by code_simp
  from second_install_fails_before_fetch[OF 1, of sampleEnv sampleWorld 3
      "fst (snd (the ?x))" "snd (snd (the ?x))" 3] 1 2 4 5 6 7
  show ?thesis by simp
qed

section \<open>Installing without a name\<close>

lemma installCopy_result:
  assumes "installCopy k E this w = Some (Inr tmpDir, this3, w4)"
  shows "installedAt this3 = pathJoin [packagesDirectory this3, getName this3] \<and>
         (\<exists>fs3. copySync E fs3 tmpDir (installedAt this3) = Inr (fsys w4))"
  using assms
  by (auto simp: installCopy_def Let_def setName_def getName_def
           split: prod.splits sum.splits option.splits)

text \<open>
  Claim C9. In an install without a name, let the package directory be ready, let the fetch,
  the reading of the manifest and the copy succeed, and let the removal of the scratch
  directory fail. Then \<^verbatim>\<open>install\<close> fails with the cleanup error, which carries the
  name, the final destination and the scratch path; the descriptor it leaves has
  \<^verbatim>\<open>installedAt\<close> set to the final destination; and the file system differs from
  the one right after the copy only inside the scratch directory.
\<close>

theorem cleanup_failure_keeps_install:
  assumes "getName this = []"
    and "ensurePackagesDirectory E this w = (Inr (), w1)"
    and "installCopy k E this w1 = Some (Inr tmpDir, this3, w4)"
    and "removeFailure E (resolve E tmpDir) = Some keep"
  shows "\<exists>w'. install k E this w
                = Some (Inl (CleanupError (getName this3) (installedAt this3) tmpDir), this3, w') \<and>
              trace w' = trace w4 \<and>
              (\<forall>q. \<not> prefix (resolve E tmpDir) q \<longrightarrow> fsys w' q = fsys w4 q) \<and>
              (\<exists>fs3. copySync E fs3 tmpDir (installedAt this3) = Inr (fsys w4)) \<and>
              installedAt this3 = pathJoin [packagesDirectory this3, getName this3] \<and>
              message (CleanupError (getName this3) (installedAt this3) tmpDir)
                = getName this3 @ '' installed at '' @ installedAt this3 @
                  '', but cleanup failed. Please manually delete '' @ tmpDir"
proof -
  let ?w' = "w4\<lparr>fsys := \<lambda>q. if prefix (resolve E tmpDir) q \<and> \<not> keep q then None else fsys w4 q\<rparr>"
  have "install k E this w
           = Some (Inl (CleanupError (getName this3) (installedAt this3) tmpDir), this3, ?w')"
    using assms by (simp add: install_def installScratch_def removeSync_def Let_def)
  moreover have "trace ?w' = trace w4" by simp
  moreover have "\<forall>q. \<not> prefix (resolve E tmpDir) q \<longrightarrow> fsys ?w' q = fsys w4 q" by simp
  moreover have "\<exists>fs3. copySync E fs3 tmpDir (installedAt this3) = Inr (fsys w4)"
    and "installedAt this3 = pathJoin [packagesDirectory this3, getName this3]"
    using installCopy_result[OF assms(3)] by blast+
  moreover have "message (CleanupError (getName this3) (installedAt this3) tmpDir)
                = getName this3 @ '' installed at '' @ installedAt this3 @
                  '', but cleanup failed. Please manually delete '' @ tmpDir"
    by (simp add: message_def)
  ultimately show ?thesis by (intro exI[of _ ?w'] conjI)
qed

theorem cleanup_failure_keeps_install_witness:
  "getName sampleDependency = [] \<and>
   fst (ensurePackagesDirectory stickyEnv sampleDependency sampleWorld) = Inr () \<and>
   map_option fst
     (installCopy 3 stickyEnv sampleDependency
        (snd (ensurePackagesDirectory stickyEnv sampleDependency sampleWorld)))
     = Some (Inr ''/tmp/dapple/packages/12345'') \<and>
   removeFailure stickyEnv (resolve stickyEnv ''/tmp/dapple/packages/12345'') \<noteq> None \<and>
   map_option fst (install 3 stickyEnv sampleDependency sampleWorld)
     = Some (Inl (CleanupError ''foo'' ''dapple_packages/foo'' ''/tmp/dapple/packages/12345'')) \<and>
   map_option (\<lambda>(r, d, w). (installedAt d, fsys w [''home'', ''proj'', ''dapple_packages'', ''foo'', ''a.txt'']))
     (install 3 stickyEnv sampleDependency sampleWorld)
     = Some (''dapple_packages/foo'', Some (File ''X''))"
proof -
  let ?w1 = "snd (ensurePackagesDirectory stickyEnv sampleDependency sampleWorld)"
  let ?x = "installCopy 3 stickyEnv sampleDependency ?w1"
  let ?tmp = "''/tmp/dapple/packages/12345''"
  have 1: "getName sampleDependency = []" by (simp add: getName_def sampleDependency_def)
  have 2: "fst (ensurePackagesDirectory stickyEnv sampleDependency sampleWorld) = Inr ()"
    by code_simp
  then have e2: "ensurePackagesDirectory stickyEnv sampleDependency sampleWorld = (Inr (), ?w1)"
    by (simp add: prod_eq_iff)
  have 3: "map_option fst ?x = Some (Inr ?tmp)" by code_simp
  then have e3: "?x = Some (Inr ?tmp, fst (snd (the ?x)), snd (snd (the ?x)))"
    by (cases ?x) (auto simp: prod_eq_iff)
  have 4: "removeFailure stickyEnv (resolve stickyEnv ?tmp) = Some (\<lambda>q. True)"
    by (simp add: stickyEnv_def)
  have 5: "getName (fst (snd (the ?x))) = ''foo''" by code_simp
  have 6: "installedAt (fst (snd (the ?x))) = ''dapple_packages/foo''" by code_simp
  have 7: "fsys (snd (snd (the ?x))) [''home'', ''proj'', ''dapple_packages'', ''foo'', ''a.txt'']
             = Some (File ''X'')" by code_simp
  have 8: "\<not> prefix (resolve stickyEnv ?tmp) [''home'', ''proj'', ''dapple_packages'', ''foo'', ''a.txt'']"
    by code_simp
  from cleanup_failure_keeps_install[OF 1 e2 e3 4]
  obtain w' where w': "install 3 stickyEnv sampleDependency sampleWorld
       = Some (Inl (CleanupError (getName (fst (snd (the ?x)))) (installedAt (fst (snd (the ?x)))) ?tmp),
               fst (snd (the ?x)), w')"
    and f: "\<forall>q. \<not> prefix (resolve stickyEnv ?tmp) q \<longrightarrow> fsys w' q = fsys (snd (snd (the ?x))) q"
    by blast
  from f 8 7 have 9: "fsys w' [''home'', ''proj'', ''dapple_packages'', ''foo'', ''a.txt''] = Some (File ''X'')"
    by simp
  show ?thesis using 1 2 3 4 w' 5 6 9 by simp
qed

text \<open>
  Claim C3. The claim asks for a hard failure on every name collision. With a name known
  up front the install fails (last conjunct). Without one, the name \<^verbatim>\<open>foo\<close> read from
  the fetched manifest collides with the installed package \<^verbatim>\<open>foo\<close>, no check is made,
  and the install succeeds: the fetched files are copied into the existing directory next to
  the file that was there.
\<close>

theorem unnamed_install_merges_into_existing:
  "accessSync sampleEnv (fsys occupiedWorld) ''dapple_packages/foo'' \<and>
   fsys occupiedWorld [''home'', ''proj'', ''dapple_packages'', ''foo'', ''old.txt'']
     = Some (File ''old'') \<and>
   (case install 3 sampleEnv sampleDependency occupiedWorld of
      None \<Rightarrow> False
    | Some (r, d, w) \<Rightarrow>
        r = Inr () \<and> getName d = ''foo'' \<and> installedAt d = ''dapple_packages/foo'' \<and>
        fsys w [''home'', ''proj'', ''dapple_packages'', ''foo'', ''old.txt'']
          = Some (File ''old'') \<and>
        fsys w [''home'', ''proj'', ''dapple_packages'', ''foo'', ''a.txt'']
          = Some (File ''X'') \<and>
        fsys w [''home'', ''proj'', ''dapple_packages'', ''foo'', ''sub'', ''b.txt'']
          = Some (File ''Y'')) \<and>
   install 3 sampleEnv (setName ''foo'' sampleDependency) occupiedWorld
     = Some (Inl (AlreadyInstalledError ''foo''), setName ''foo'' sampleDependency, occupiedWorld)"
proof -
  have 1: "accessSync sampleEnv (fsys occupiedWorld) ''dapple_packages/foo''" by code_simp
  have 2: "fsys occupiedWorld [''home'', ''proj'', ''dapple_packages'', ''foo'', ''old.txt'']
     = Some (File ''old'')" by code_simp
  have 3: "(case install 3 sampleEnv sampleDependency occupiedWorld of
      None \<Rightarrow> False
    | Some (r, d, w) \<Rightarrow>
        r = Inr () \<and> getName d = ''foo'' \<and> installedAt d = ''dapple_packages/foo'' \<and>
        fsys w [''home'', ''proj'', ''dapple_packages'', ''foo'', ''old.txt'']
          = Some (File ''old'') \<and>
        fsys w [''home'', ''proj'', ''dapple_packages'', ''foo'', ''a.txt'']
          = Some (File ''X'') \<and>
        fsys w [''home'', ''proj'', ''dapple_packages'', ''foo'', ''sub'', ''b.txt'']
          = Some (File ''Y''))" by code_simp
  have 4: "getName (setName ''foo'' sampleDependency) \<noteq> []" by (simp add: getName_def setName_def)
  have 5: "accessSync sampleEnv (fsys occupiedWorld)
             (pathJoin [packagesDirectory (setName ''foo'' sampleDependency),
                        getName (setName ''foo'' sampleDependency)])" by code_simp
  have 6: "getName (setName ''foo'' sampleDependency) = ''foo''" by (simp add: getName_def setName_def)
  from already_installed[OF 4 5, of 3] 1 2 3 6 show ?thesis by simp
qed

section \<open>The display string\<close>

lemma nonempty_obtain: "xs \<noteq> [] \<Longrightarrow> \<exists>x. x \<in> set xs"
  by (cases xs) auto

lemma regexExec_Bol_Some:
  "regexExec ci (Cat Bol r) s = Some c \<Longrightarrow> \<exists>p rest. (p, rest, c) \<in> set (ms ci r (0, s, \<lambda>_. None))"
  unfolding regexExec_def
  by (auto dest!: regexMatch_Bol_Some)

lemma regexExec_Bol_Some_iff:
  "(\<exists>c. regexExec ci (Cat Bol r) s = Some c) \<longleftrightarrow> ms ci r (0, s, \<lambda>_. None) \<noteq> []"
  unfolding regexExec_def regexMatch_Bol by (auto split: list.splits)

lemma canon_at_eq: "canon ci x = canon ci CHR ''@'' \<Longrightarrow> x = CHR ''@''"
  by (simp add: canon_at)

subsection \<open>The git pattern\<close>

lemma gitPathRegex_match:
  assumes "(p, rest, c) \<in> set (ms True (Seq [Grp 1 (Seq [Plus Dot, Dot, Lit ''git'']),
          Seq [Chr CHR ''@'', Grp 2 (Plus (Cls [(CHR ''a'', CHR ''z''), (CHR ''0'', CHR ''9'')]))],
          Eol]) (0, s, \<lambda>_. None))"
  shows "CHR ''@'' \<in> set s \<and> truthy (c 2)"
proof -
  let ?cls = "Cls [(CHR ''a'', CHR ''z''), (CHR ''0'', CHR ''9'')]"
  have at: "isAtom ?cls" by simp
  from assms obtain p1 s1 c1 x xs k c2 where
    g1: "(p1, s1, c1) \<in> set (ms True (Grp 1 (Cat (Plus Dot) (Cat Dot (Cat (Lit ''git'') Eps)))) (0, s, \<lambda>_. None))"
    and x: "s1 = x # xs" "canon True x = canon True CHR ''@''"
    and k: "1 \<le> k" "k \<le> run True ?cls xs"
    and c: "c = c2(2 := Some (take (Suc p1 + k - Suc p1) xs))"
    unfolding Seq.simps in_ms_Cat in_ms_Chr in_ms_Grp in_ms_Plus_atom[OF at] in_ms_Eol in_ms_Eps
    by (elim exE conjE) (simp only: prod.inject, blast)
  from ms_shape[OF g1] obtain w where "s = w @ s1" by blast
  with x have "CHR ''@'' \<in> set s" by (simp add: canon_at)
  moreover have "take k xs \<noteq> []" using k run_le[of True ?cls xs] by (cases xs) auto
  then have "truthy (c 2)" using c by (simp add: truthy_def)
  ultimately show ?thesis by simp
qed

lemma gitPathRegex_test_at: "regexTest True gitPathRegex s \<Longrightarrow> CHR ''@'' \<in> set s"
proof -
  assume "regexTest True gitPathRegex s"
  then have "ms True (Seq [Grp 1 (Seq [Plus Dot, Dot, Lit ''git'']),
          Seq [Chr CHR ''@'', Grp 2 (Plus (Cls [(CHR ''a'', CHR ''z''), (CHR ''0'', CHR ''9'')]))],
          Eol]) (0, s, \<lambda>_. None) \<noteq> []"
    unfolding gitPathRegex_def Seq.simps(2)[of Bol] regexTest_Bol .
  from nonempty_obtain[OF this] obtain p rest c where "(p, rest, c) \<in> set (ms True (Seq [Grp 1 (Seq [Plus Dot, Dot, Lit ''git'']),
          Seq [Chr CHR ''@'', Grp 2 (Plus (Cls [(CHR ''a'', CHR ''z''), (CHR ''0'', CHR ''9'')]))],
          Eol]) (0, s, \<lambda>_. None))" by (metis prod_cases3)
  from gitPathRegex_match[OF this] show ?thesis by simp
qed

lemma gitPathRegex_exec_version:
  assumes "regexExec True gitPathRegex s = Some c"
  shows "truthy (c 2)"
proof -
  have "\<exists>p rest. (p, rest, c) \<in> set (ms True (Seq [Grp 1 (Seq [Plus Dot, Dot, Lit ''git'']),
          Seq [Chr CHR ''@'', Grp 2 (Plus (Cls [(CHR ''a'', CHR ''z''), (CHR ''0'', CHR ''9'')]))],
          Eol]) (0, s, \<lambda>_. None))"
    using assms unfolding gitPathRegex_def Seq.simps(2)[of Bol] by (rule regexExec_Bol_Some)
  then obtain p rest where "(p, rest, c) \<in> set (ms True (Seq [Grp 1 (Seq [Plus Dot, Dot, Lit ''git'']),
          Seq [Chr CHR ''@'', Grp 2 (Plus (Cls [(CHR ''a'', CHR ''z''), (CHR ''0'', CHR ''9'')]))],
          Eol]) (0, s, \<lambda>_. None))" by blast
  from gitPathRegex_match[OF this] show ?thesis by simp
qed

subsection \<open>The generic pattern\<close>

lemma notAtHash_take:
  assumes "k \<le> run False (NCls [(CHR ''@'', CHR ''@''), (CHR ''#'', CHR ''#'')]) s"
  shows "CHR ''@'' \<notin> set (take k s) \<and> CHR ''#'' \<notin> set (take k s)"
  using run_take[OF assms] by (auto simp: inClass_atHash)

lemma pathRegex_match:
  assumes "(p, rest, c) \<in> set (ms False
      (Seq [Opt (Grp 1 (Plus (NCls [(CHR ''@'', CHR ''@''), (CHR ''#'', CHR ''#'')]))),
            Opt (Seq [Chr CHR ''@'', Opt (Grp 2 (Plus Dot))]), Eol]) (0, s, \<lambda>_. None))"
  shows "(c 1 = None \<or> (\<exists>a. c 1 = Some a \<and> a \<noteq> [] \<and> CHR ''@'' \<notin> set a \<and> CHR ''#'' \<notin> set a)) \<and>
         (CHR ''@'' \<notin> set s \<longrightarrow> c 1 = (if s = [] then None else Some s) \<and> c 2 = None)"
proof -
  let ?N = "NCls [(CHR ''@'', CHR ''@''), (CHR ''#'', CHR ''#'')]"
  have atN: "isAtom ?N" and atD: "isAtom Dot" by simp_all
  from assms obtain p1 s1 c1 c2 where
    o1: "(p1, s1, c1) \<in> set (ms False (Opt (Grp 1 (Plus ?N))) (0, s, \<lambda>_. None))"
    and o2: "(p, rest, c2) \<in> set (ms False (Opt (Cat (Chr CHR ''@'') (Cat (Opt (Grp 2 (Plus Dot))) Eps))) (p1, s1, c1))"
    and e: "rest = []" "c = c2"
    unfolding Seq.simps in_ms_Cat[of _ _ "Opt (Grp 1 (Plus ?N))"] in_ms_Cat[of _ _ "Opt _" "Cat Eol Eps"]
      in_ms_Cat[of _ _ Eol] in_ms_Eol in_ms_Eps
    by (elim exE conjE) (auto simp only: prod.inject)
  from o1 have c1: "(p1 = 0 \<and> s1 = s \<and> c1 = (\<lambda>_. None)) \<or>
      (\<exists>k. 1 \<le> k \<and> k \<le> run False ?N s \<and> p1 = k \<and> s1 = drop k s \<and> c1 = (\<lambda>_. None)(1 := Some (take k s)))"
    unfolding in_ms_Opt in_ms_Grp in_ms_Plus_atom[OF atN] by auto
  from o2 have c2: "(c2 = c1 \<and> rest = s1) \<or> (\<exists>xs. s1 = CHR ''@'' # xs \<and> c2 1 = c1 1)"
    unfolding in_ms_Opt in_ms_Cat in_ms_Chr in_ms_Grp in_ms_Plus_atom[OF atD] in_ms_Eps
    by (auto simp: canon_at)
  have k1: "take k s \<noteq> []" if "1 \<le> k" "k \<le> run False ?N s" for k
    using that run_le[of False ?N s] by (cases s) auto
  have A: "c 1 = None \<or> (\<exists>a. c 1 = Some a \<and> a \<noteq> [] \<and> CHR ''@'' \<notin> set a \<and> CHR ''#'' \<notin> set a)"
  proof -
    have "c 1 = c1 1" using c2 e by auto
    with c1 show ?thesis using notAtHash_take k1 by auto
  qed
  have B: "c 1 = (if s = [] then None else Some s) \<and> c 2 = None" if na: "CHR ''@'' \<notin> set s"
  proof -
    have "CHR ''@'' \<notin> set s1" using c1 na by (auto dest: in_set_dropD)
    with c2 have r: "c2 = c1" "rest = s1" by auto
    from c1 show ?thesis
    proof
      assume "p1 = 0 \<and> s1 = s \<and> c1 = (\<lambda>_. None)"
      with r e show ?thesis by auto
    next
      assume "\<exists>k. 1 \<le> k \<and> k \<le> run False ?N s \<and> p1 = k \<and> s1 = drop k s \<and> c1 = (\<lambda>_. None)(1 := Some (take k s))"
      then obtain k where k: "1 \<le> k" "k \<le> run False ?N s" "s1 = drop k s" "c1 = (\<lambda>_. None)(1 := Some (take k s))"
        by blast
      with r e have "drop k s = []" by simp
      then have "take k s = s" by simp
      moreover have "s \<noteq> []" using k1[OF k(1,2)] by auto
      ultimately show ?thesis using k r e by simp
    qed
  qed
  from A B show ?thesis by blast
qed


lemma pathRegex_matches_plain:
  assumes "CHR ''@'' \<notin> set s" and "CHR ''#'' \<notin> set s"
  shows "ms False
      (Seq [Opt (Grp 1 (Plus (NCls [(CHR ''@'', CHR ''@''), (CHR ''#'', CHR ''#'')]))),
            Opt (Seq [Chr CHR ''@'', Opt (Grp 2 (Plus Dot))]), Eol]) (0, s, \<lambda>_. None) \<noteq> []"
proof -
  let ?N = "NCls [(CHR ''@'', CHR ''@''), (CHR ''#'', CHR ''#'')]"
  let ?c = "if s = [] then (\<lambda>_. None) else (\<lambda>_. None)(1 := Some s)"
  have atN: "isAtom ?N" by simp
  have r: "run False ?N s = length s"
    using assms by (auto simp: run_eq_length inClass_atHash)
  have 1: "(length s, [], ?c) \<in> set (ms False (Opt (Grp 1 (Plus ?N))) (0, s, \<lambda>_. None))"
  proof (cases "s = []")
    case True
    then show ?thesis unfolding in_ms_Opt by simp
  next
    case False
    have "(length s, [], \<lambda>_. None) \<in> set (ms False (Plus ?N) (0, s, \<lambda>_. None))"
      unfolding in_ms_Plus_atom[OF atN] using False r
      by (intro exI[of _ "length s"]) (simp add: Suc_le_eq)
    then have "(length s, [], (\<lambda>_. None)(1 := Some (take (length s - 0) s)))
                 \<in> set (ms False (Grp 1 (Plus ?N)) (0, s, \<lambda>_. None))"
      unfolding in_ms_Grp by blast
    then show ?thesis unfolding in_ms_Opt using False by simp
  qed
  have 2: "(length s, [], ?c) \<in> set (ms False (Opt (Seq [Chr CHR ''@'', Opt (Grp 2 (Plus Dot))])) (length s, [], ?c))"
    unfolding in_ms_Opt by simp
  have 3: "(length s, [], ?c) \<in> set (ms False (Seq [Eol]) (length s, [], ?c))"
    unfolding Seq.simps in_ms_Cat in_ms_Eol in_ms_Eps by blast
  have "(length s, [], ?c) \<in> set (ms False
      (Seq [Opt (Grp 1 (Plus ?N)), Opt (Seq [Chr CHR ''@'', Opt (Grp 2 (Plus Dot))]), Eol]) (0, s, \<lambda>_. None))"
    unfolding Seq.simps(2)[of "Opt (Grp 1 (Plus ?N))"] Seq.simps(2)[of "Opt (Seq [Chr CHR ''@'', Opt (Grp 2 (Plus Dot))])"]
      in_ms_Cat[of _ _ "Opt (Grp 1 (Plus ?N))"] in_ms_Cat[of _ _ "Opt (Seq [Chr CHR ''@'', Opt (Grp 2 (Plus Dot))])"]
    using 1 2 3 by blast
  then show ?thesis by (metis empty_iff empty_set)
qed

lemma pathRegex_exec_plain:
  assumes "CHR ''@'' \<notin> set s" and "CHR ''#'' \<notin> set s"
  shows "\<exists>c. regexExec False pathRegex s = Some c \<and> c 1 = (if s = [] then None else Some s) \<and> c 2 = None"
proof -
  from pathRegex_matches_plain[OF assms]
  obtain c where c: "regexExec False pathRegex s = Some c"
    unfolding pathRegex_def Seq.simps(2)[of Bol] using regexExec_Bol_Some_iff by blast
  then have "\<exists>p rest. (p, rest, c) \<in> set (ms False
      (Seq [Opt (Grp 1 (Plus (NCls [(CHR ''@'', CHR ''@''), (CHR ''#'', CHR ''#'')]))),
            Opt (Seq [Chr CHR ''@'', Opt (Grp 2 (Plus Dot))]), Eol]) (0, s, \<lambda>_. None))"
    unfolding pathRegex_def Seq.simps(2)[of Bol] by (rule regexExec_Bol_Some)
  then obtain p rest where "(p, rest, c) \<in> set (ms False
      (Seq [Opt (Grp 1 (Plus (NCls [(CHR ''@'', CHR ''@''), (CHR ''#'', CHR ''#'')]))),
            Opt (Seq [Chr CHR ''@'', Opt (Grp 2 (Plus Dot))]), Eol]) (0, s, \<lambda>_. None))" by blast
  from pathRegex_match[OF this] assms(1) c show ?thesis by blast
qed

lemma pathRegex_exec_path:
  assumes "regexExec False pathRegex s = Some c"
  shows "c 1 = None \<or> (\<exists>a. c 1 = Some a \<and> a \<noteq> [] \<and> CHR ''@'' \<notin> set a \<and> CHR ''#'' \<notin> set a)"
proof -
  from assms have "\<exists>p rest. (p, rest, c) \<in> set (ms False
      (Seq [Opt (Grp 1 (Plus (NCls [(CHR ''@'', CHR ''@''), (CHR ''#'', CHR ''#'')]))),
            Opt (Seq [Chr CHR ''@'', Opt (Grp 2 (Plus Dot))]), Eol]) (0, s, \<lambda>_. None))"
    unfolding pathRegex_def Seq.simps(2)[of Bol] by (rule regexExec_Bol_Some)
  then obtain p rest where "(p, rest, c) \<in> set (ms False
      (Seq [Opt (Grp 1 (Plus (NCls [(CHR ''@'', CHR ''@''), (CHR ''#'', CHR ''#'')]))),
            Opt (Seq [Chr CHR ''@'', Opt (Grp 2 (Plus Dot))]), Eol]) (0, s, \<lambda>_. None))" by blast
  from pathRegex_match[OF this] show ?thesis by blast
qed


subsection \<open>The IPFS pattern\<close>

lemma ipfsRegex_last:
  assumes "regexTest True ipfsRegex s"
  shows "s \<noteq> [] \<and> alnum (last s)"
proof -
  let ?cls = "Cls [(CHR ''A'', CHR ''Z''), (CHR ''a'', CHR ''z''), (CHR ''0'', CHR ''9'')]"
  let ?body = "Seq [Opt (Chr CHR ''@''), Opt (Grp 1 (Lit ''ipfs://'')), Lit ''Qm'', Plus ?cls, Eol]"
  have at: "isAtom ?cls" by simp
  from assms have "ms True ?body (0, s, \<lambda>_. None) \<noteq> []"
    unfolding ipfsRegex_def Seq.simps(2)[of Bol] regexTest_Bol .
  from nonempty_obtain[OF this] obtain st where "st \<in> set (ms True ?body (0, s, \<lambda>_. None))" by blast
  then obtain p1 s1 c1 p2 s2 c2 p3 s3 c3 k where
    1: "(p1, s1, c1) \<in> set (ms True (Opt (Chr CHR ''@'')) (0, s, \<lambda>_. None))"
    and 2: "(p2, s2, c2) \<in> set (ms True (Opt (Grp 1 (Lit ''ipfs://''))) (p1, s1, c1))"
    and 3: "(p3, s3, c3) \<in> set (ms True (Lit ''Qm'') (p2, s2, c2))"
    and k: "1 \<le> k" "k \<le> run True ?cls s3" "drop k s3 = []"
    unfolding Seq.simps in_ms_Cat[of _ _ "Opt _"] in_ms_Cat[of _ _ "Lit _"] in_ms_Cat[of _ _ "Plus _"]
      in_ms_Cat[of _ _ Eol] in_ms_Plus_atom[OF at] in_ms_Eol in_ms_Eps
    by (elim exE conjE) (auto simp only: prod.inject)
  from ms_shape[OF 1] ms_shape[OF 2] ms_shape[OF 3]
  obtain w where w: "s = w @ s3" by (metis append.assoc)
  from k run_le[of True ?cls s3] have n: "s3 \<noteq> []" by (cases s3) auto
  from k have "take k s3 = s3" by simp
  then have "last s3 \<in> set (take k s3)" using n by simp
  from run_take[OF k(2) this] have "alnum (last s3)" by (simp add: inClass_alnum3)
  with w n show ?thesis by simp
qed

lemma ipfsPrefix_replace_nonempty:
  assumes "s \<noteq> []" and "alnum (last s)"
  shows "regexReplace True ipfsPrefixRegex s [] \<noteq> []"
proof (cases "regexMatch True ipfsPrefixRegex s")
  case None
  with assms(1) show ?thesis by (simp add: regexReplace_def)
next
  case (Some m)
  obtain i p rest c where m: "m = (i, p, rest, c)" by (cases m)
  from Some[unfolded m ipfsPrefixRegex_def Seq.simps(2)[of Bol]]
  have i: "i = 0"
    and st: "(p, rest, c) \<in> set (ms True (Seq [Opt (Chr CHR ''@''), Lit ''ipfs://'']) (0, s, \<lambda>_. None))"
    by (auto dest: regexMatch_Bol_Some)
  from st obtain p1 s1 c1 w where 1: "(p1, s1, c1) \<in> set (ms True (Opt (Chr CHR ''@'')) (0, s, \<lambda>_. None))"
    and w: "s1 = w @ rest" "list_all2 (\<lambda>x a. canon True x = canon True a) w ''ipfs://''"
    unfolding Seq.simps in_ms_Cat[of _ _ "Opt _"] in_ms_Cat[of _ _ "Lit _"] in_ms_Lit in_ms_Eps
    by (elim exE conjE) (auto simp only: prod.inject)
  from ms_shape[OF 1] obtain w1 where w1: "s = w1 @ s1" by blast
  have "rest \<noteq> []"
  proof
    assume "rest = []"
    with w w1 have s: "s = w1 @ w" by simp
    from w(2) have "w \<noteq> [] \<and> canon True (last w) = canon True CHR ''/''"
      by (auto simp: list_all2_Cons2)
    then have "w \<noteq> []" "last w = CHR ''/''" by (simp_all add: canon_slash)
    with s have "last s = CHR ''/''" by simp
    with assms(2) alnum_not_slash show False by blast
  qed
  then show ?thesis using Some m i by (simp add: regexReplace_def)
qed


lemma Dependency_version: "Dependency p v n = Inr d \<Longrightarrow> version d = (if truthy v then the v else [])"
  by (auto simp: Dependency_def Let_def split: if_splits)

lemma Dependency_path: "Dependency p v n = Inr d \<Longrightarrow> path d = (if truthy p then the p else [])"
  by (auto simp: Dependency_def Let_def split: if_splits)

lemma Dependency_falsy_version: "\<not> truthy v \<Longrightarrow> Dependency p v n = Dependency p None n"
  by (simp add: Dependency_def Let_def truthy_def)

text \<open>
  Claim C1, amended. For a descriptor that the parser returns with an empty version, the
  display string is the source location alone, and parsing it again with the same name
  returns the same descriptor.
\<close>

theorem toString_roundtrip_unversioned:
  assumes "fromDependencyString s n = Inr d" and "version d = []"
  shows "fromDependencyString (toString d) n = Inr d"
proof (cases "regexTest True gitPathRegex s")
  case True
  with assms(1) obtain c where c: "regexExec True gitPathRegex s = Some c"
    and d: "Dependency (c 1) (c 2) n = Inr d"
    by (auto simp: fromDependencyString_def split: option.splits)
  from gitPathRegex_exec_version[OF c] Dependency_version[OF d] assms(2)
  show ?thesis by (auto simp: truthy_def split: option.splits)
next
  case False
  with assms(1) obtain c where c: "regexExec False pathRegex s = Some c"
    by (auto simp: fromDependencyString_def split: option.splits)
  show ?thesis
  proof (cases "regexTest True ipfsRegex (toStr (jsOr (c 2) (c 1)))")
    case True
    from ipfsRegex_last[OF True]
    have ne: "regexReplace True ipfsPrefixRegex (toStr (jsOr (c 2) (c 1))) [] \<noteq> []"
      by (intro ipfsPrefix_replace_nonempty) simp_all
    from assms(1) False c True obtain vp n1 where vp: "jsOr (c 2) (c 1) = Some vp"
      and d: "Dependency (Some (''ipfs://'' @ regexReplace True ipfsPrefixRegex vp []))
                (Some (regexReplace True ipfsPrefixRegex vp [])) n1 = Inr d"
      by (auto simp: fromDependencyString_def Let_def split: option.splits)
    from ne vp have "regexReplace True ipfsPrefixRegex vp [] \<noteq> []" by (simp add: toStr_def)
    with Dependency_version[OF d] assms(2) show ?thesis by (simp add: truthy_def)
  next
    case ni: False
    from assms(1) False c ni have d: "Dependency (c 1) (c 2) n = Inr d"
      by (simp add: fromDependencyString_def Let_def)
    from Dependency_version[OF d] assms(2) have fv: "\<not> truthy (c 2)"
      by (auto simp: truthy_def split: option.splits if_splits)
    let ?t = "path d"
    have ts: "toString d = ?t" using assms(2) by (simp add: toString_def getPath_def getVersion_def)
    from pathRegex_exec_path[OF c] Dependency_path[OF d]
    have t: "(c 1 = None \<and> ?t = []) \<or> (c 1 = Some ?t \<and> ?t \<noteq> [] \<and> CHR ''@'' \<notin> set ?t \<and> CHR ''#'' \<notin> set ?t)"
      by (auto simp: truthy_def)
    then have na: "CHR ''@'' \<notin> set ?t" "CHR ''#'' \<notin> set ?t" by auto
    from t have c1: "c 1 = (if ?t = [] then None else Some ?t)" by auto
    from pathRegex_exec_plain[OF na] obtain c' where c': "regexExec False pathRegex ?t = Some c'"
      "c' 1 = (if ?t = [] then None else Some ?t)" "c' 2 = None" by blast
    have g: "\<not> regexTest True gitPathRegex ?t" using na(1) gitPathRegex_test_at by blast
    have j: "jsOr (c' 2) (c' 1) = jsOr (c 2) (c 1)" using c' c1 fv by (simp add: jsOr_def truthy_def)
    have "fromDependencyString ?t n = Dependency (c' 1) (c' 2) n"
      using g c' ni j by (simp add: fromDependencyString_def Let_def)
    also have "\<dots> = Dependency (c 1) None n" using c' c1 by simp
    also have "\<dots> = Dependency (c 1) (c 2) n" using Dependency_falsy_version[OF fv] by simp
    finally show ?thesis using d ts by simp
  qed
qed

theorem toString_roundtrip_unversioned_witness:
  "fromDependencyString ''lib/contracts'' (Some ''lib'')
     = Inr \<lparr>name = ''lib'', path = ''lib/contracts'', version = [],
            packagesDirectory = ''dapple_packages'', installedAt = [], u_tmpDir = None\<rparr> \<and>
   fromDependencyString
       (toString \<lparr>name = ''lib'', path = ''lib/contracts'', version = [],
            packagesDirectory = ''dapple_packages'', installedAt = [], u_tmpDir = None\<rparr>)
       (Some ''lib'')
     = Inr \<lparr>name = ''lib'', path = ''lib/contracts'', version = [],
            packagesDirectory = ''dapple_packages'', installedAt = [], u_tmpDir = None\<rparr>"
proof -
  let ?d = "\<lparr>name = ''lib'', path = ''lib/contracts'', version = [],
            packagesDirectory = ''dapple_packages'', installedAt = [], u_tmpDir = None\<rparr>"
  have 1: "fromDependencyString ''lib/contracts'' (Some ''lib'') = Inr ?d" by code_simp
  have 2: "version ?d = []" by simp
  from toString_roundtrip_unversioned[OF 1 2] 1 show ?thesis by simp
qed

section \<open>Paths and their resolution\<close>

lemma splitSlash_nonempty: "splitSlash s \<noteq> []"
  by (induction s) (auto split: list.splits)

lemma splitSlash_append_slash: "splitSlash (a @ CHR ''/'' # b) = splitSlash a @ splitSlash b"
  by (induction a) (auto split: list.splits simp: splitSlash_nonempty)

lemma splitSlash_noslash: "CHR ''/'' \<notin> set s \<Longrightarrow> splitSlash s = [s]"
  by (induction s) auto

lemma splitSlash_segments: "x \<in> set (splitSlash s) \<Longrightarrow> CHR ''/'' \<notin> set x"
  by (induction s arbitrary: x) (auto split: list.splits if_splits)

lemma splitSlash_joinSlash:
  "segs \<noteq> [] \<Longrightarrow> \<forall>s \<in> set segs. CHR ''/'' \<notin> set s \<Longrightarrow> splitSlash (joinSlash segs) = segs"
proof (induction segs rule: joinSlash.induct)
  case 1
  then show ?case by simp
next
  case (2 x)
  then show ?case by (simp add: splitSlash_noslash)
next
  case (3 x y ys)
  then show ?case by (simp add: splitSlash_append_slash splitSlash_noslash)
qed

lemma joinSlash_empty: "\<forall>s \<in> set segs. s \<noteq> [] \<Longrightarrow> joinSlash segs = [] \<longleftrightarrow> segs = []"
  by (induction segs rule: joinSlash.induct) auto

lemma cleanSeg_hd: "cleanSeg s \<Longrightarrow> hd s \<noteq> CHR ''/''"
  by (cases s) (auto simp: cleanSeg_def)

lemma hd_joinSlash: "segs \<noteq> [] \<Longrightarrow> \<forall>s \<in> set segs. cleanSeg s \<Longrightarrow> hd (joinSlash segs) \<noteq> CHR ''/''"
proof (induction segs rule: joinSlash.induct)
  case 1
  then show ?case by simp
next
  case (2 x)
  then show ?case by (simp add: cleanSeg_hd)
next
  case (3 x y ys)
  then have "cleanSeg x" by simp
  then show ?case using cleanSeg_hd[of x] by (simp add: hd_append cleanSeg_def)
qed

lemma normStep_clean:
  "\<forall>s \<in> set acc. cleanSeg s \<Longrightarrow> CHR ''/'' \<notin> set seg \<Longrightarrow> \<forall>s \<in> set (normStep a acc seg). cleanSeg s"
  by (auto simp: normStep_def cleanSeg_def dest: in_set_butlastD)

lemma foldl_normStep_clean:
  "\<forall>s \<in> set acc. cleanSeg s \<Longrightarrow> \<forall>s \<in> set parts. CHR ''/'' \<notin> set s \<Longrightarrow>
     \<forall>s \<in> set (foldl (normStep a) acc parts). cleanSeg s"
proof (induction parts arbitrary: acc)
  case Nil
  then show ?case by simp
next
  case (Cons x xs)
  have "\<forall>s \<in> set (normStep a acc x). cleanSeg s"
    using Cons.prems by (intro normStep_clean) auto
  then show ?case using Cons by simp
qed

lemma normStep_empty [simp]: "normStep a acc [] = acc"
  by (simp add: normStep_def)

lemma normStep_dot [simp]: "normStep a acc ''.'' = acc"
  by (simp add: normStep_def)

lemma normStep_plain: "simpleName x \<Longrightarrow> normStep a acc x = acc @ [x]"
  by (auto simp: normStep_def simpleName_def)

lemma foldl_normStep_idem:
  assumes "\<forall>s \<in> set parts. CHR ''/'' \<notin> set s"
  shows "foldl (normStep False) st (foldl (normStep True) [] parts) = foldl (normStep False) st parts"
  using assms
proof (induction parts rule: rev_induct)
  case Nil
  then show ?case by simp
next
  case (snoc x xs)
  let ?segs = "foldl (normStep True) [] xs"
  have IH: "foldl (normStep False) st ?segs = foldl (normStep False) st xs" using snoc by simp
  have cl: "\<forall>s \<in> set ?segs. cleanSeg s" using snoc.prems by (intro foldl_normStep_clean) auto
  show ?case
  proof (cases "x = ''..'' \<and> ?segs \<noteq> [] \<and> last ?segs \<noteq> ''..''")
    case True
    then obtain segs' y where s: "?segs = segs' @ [y]" "y \<noteq> ''..''"
      by (metis append_butlast_last_id)
    have "cleanSeg y" using cl s by simp
    then have y: "normStep False acc y = acc @ [y]" for acc
      using s(2) by (auto simp: normStep_def cleanSeg_def)
    have "foldl (normStep False) st (foldl (normStep True) [] (xs @ [x])) = foldl (normStep False) st segs'"
      using True s by (simp add: normStep_def)
    also have "\<dots> = normStep False (foldl (normStep False) st ?segs) ''..''"
      using s y by (simp add: normStep_def)
    finally show ?thesis using IH True by simp
  next
    case False
    then have "normStep True ?segs x = ?segs \<or> normStep True ?segs x = ?segs @ [x]"
      by (auto simp: normStep_def)
    then show ?thesis
    proof
      assume a: "normStep True ?segs x = ?segs"
      then have "x = [] \<or> x = ''.''" using False by (auto simp: normStep_def split: if_splits)
      then show ?thesis using IH a by auto
    next
      assume "normStep True ?segs x = ?segs @ [x]"
      then show ?thesis using IH by simp
    qed
  qed
qed

lemma foldl_normStep_abs:
  "\<forall>s \<in> set segs. cleanSeg s \<and> s \<noteq> ''..'' \<Longrightarrow> foldl (normStep False) acc segs = acc @ segs"
  by (induction segs arbitrary: acc) (auto simp: normStep_def cleanSeg_def)

lemma normStep_False_no_dotdot:
  "\<forall>s \<in> set acc. s \<noteq> ''..'' \<Longrightarrow> \<forall>s \<in> set (normStep False acc seg). s \<noteq> ''..''"
  by (auto simp: normStep_def dest: in_set_butlastD)

lemma foldl_normStep_False_no_dotdot:
  "\<forall>s \<in> set acc. s \<noteq> ''..'' \<Longrightarrow> \<forall>s \<in> set (foldl (normStep False) acc parts). s \<noteq> ''..''"
proof (induction parts arbitrary: acc)
  case Nil
  then show ?case by simp
next
  case (Cons x xs)
  from Cons.IH[OF normStep_False_no_dotdot[OF Cons.prems]] show ?case by simp
qed


lemma resolve_normalize:
  assumes "p \<noteq> []"
  shows "resolve E (normalize p) = resolve E p"
proof -
  let ?parts = "splitSlash p"
  let ?segs = "normalizeArray (\<not> isAbsolute p) ?parts"
  let ?q = "joinSlash ?segs"
  have pn: "\<forall>s \<in> set ?parts. CHR ''/'' \<notin> set s" by (auto dest: splitSlash_segments)
  have cl: "\<forall>s \<in> set ?segs. cleanSeg s"
    unfolding normalizeArray_def using pn by (intro foldl_normStep_clean) auto
  then have ns: "\<forall>s \<in> set ?segs. CHR ''/'' \<notin> set s" and ne: "\<forall>s \<in> set ?segs. s \<noteq> []"
    by (auto simp: cleanSeg_def)
  have q0: "?q = [] \<longleftrightarrow> ?segs = []" using ne by (rule joinSlash_empty)
  have sq: "?segs \<noteq> [] \<Longrightarrow> splitSlash ?q = ?segs" using ns by (intro splitSlash_joinSlash) auto
  have sqt: "splitSlash (?q @ ''/'') = splitSlash ?q @ [[]]"
    using splitSlash_append_slash[of ?q "[]"] by simp
  have skip: "foldl (normStep False) st (xs @ [[]]) = foldl (normStep False) st xs" for st xs
    by simp
  show ?thesis
  proof (cases "isAbsolute p")
    case True
    have segs: "?segs = foldl (normStep False) [] ?parts" using True by (simp add: normalizeArray_def)
    have r: "resolve E p = ?segs" using True segs by (simp add: resolve_def)
    have nd: "\<forall>s \<in> set ?segs. cleanSeg s \<and> s \<noteq> ''..''"
      using cl foldl_normStep_False_no_dotdot[of "[]" ?parts] segs by auto
    have id: "foldl (normStep False) [] ?segs = ?segs"
      using foldl_normStep_abs[OF nd, of "[]"] by simp
    show ?thesis
    proof (cases "?segs = []")
      case e: True
      then have "normalize p = ''/''" using assms True q0 by (simp add: normalize_def Let_def)
      then show ?thesis using r e by (simp add: resolve_def isAbsolute_def)
    next
      case n: False
      have "normalize p = CHR ''/'' # ?q \<or> normalize p = CHR ''/'' # ?q @ ''/''"
        using assms True by (auto simp: normalize_def Let_def)
      then show ?thesis
      proof
        assume "normalize p = CHR ''/'' # ?q"
        then show ?thesis using r sq[OF n] id by (simp add: resolve_def isAbsolute_def)
      next
        assume "normalize p = CHR ''/'' # ?q @ ''/''"
        then show ?thesis using r sq[OF n] id sqt by (simp add: resolve_def isAbsolute_def)
      qed
    qed
  next
    case False
    have segs: "?segs = foldl (normStep True) [] ?parts" using False by (simp add: normalizeArray_def)
    have r: "resolve E p = foldl (normStep False) (cwd E) ?segs"
      using False segs foldl_normStep_idem[OF pn, of "cwd E"] by (simp add: resolve_def)
    show ?thesis
    proof (cases "?segs = []")
      case e: True
      have "normalize p = ''.'' \<or> normalize p = ''./''"
        using assms False e q0 by (auto simp: normalize_def Let_def)
      then show ?thesis using r e by (auto simp: resolve_def isAbsolute_def)
    next
      case n: False
      have h: "hd ?q \<noteq> CHR ''/''" using n cl by (rule hd_joinSlash)
      have qn: "?q \<noteq> []" using n q0 by simp
      have "normalize p = ?q \<or> normalize p = ?q @ ''/''"
        using assms False qn by (auto simp: normalize_def Let_def)
      then show ?thesis
      proof
        assume "normalize p = ?q"
        then show ?thesis using r sq[OF n] h qn by (simp add: resolve_def isAbsolute_def)
      next
        assume "normalize p = ?q @ ''/''"
        then show ?thesis using r sq[OF n] h qn sqt by (simp add: resolve_def isAbsolute_def)
      qed
    qed
  qed
qed

lemma resolve_pathJoin:
  assumes "simpleName nm"
  shows "resolve E (pathJoin [dest, nm]) = resolve E dest @ [nm]"
proof (cases "dest = []")
  case True
  have n: "nm \<noteq> []" "CHR ''/'' \<notin> set nm" using assms by (auto simp: simpleName_def)
  from n have a: "\<not> isAbsolute nm" by (cases nm) (auto simp: isAbsolute_def)
  have "pathJoin [dest, nm] = normalize nm" using True n by (simp add: pathJoin_def)
  then have "resolve E (pathJoin [dest, nm]) = resolve E nm" using n resolve_normalize by simp
  also have "\<dots> = cwd E @ [nm]"
    using a n assms by (simp add: resolve_def splitSlash_noslash normStep_plain)
  also have "cwd E = resolve E dest" using True by (simp add: resolve_def isAbsolute_def)
  finally show ?thesis .
next
  case False
  have n: "nm \<noteq> []" "CHR ''/'' \<notin> set nm" using assms by (auto simp: simpleName_def)
  have "pathJoin [dest, nm] = normalize (dest @ CHR ''/'' # nm)"
    using False n by (simp add: pathJoin_def)
  then have "resolve E (pathJoin [dest, nm]) = resolve E (dest @ CHR ''/'' # nm)"
    using resolve_normalize by simp
  also have "\<dots> = normStep False (resolve E dest) nm"
    using False n by (simp add: resolve_def isAbsolute_def splitSlash_append_slash splitSlash_noslash)
  also have "\<dots> = resolve E dest @ [nm]" using assms by (rule normStep_plain)
  finally show ?thesis .
qed

section \<open>Reconstructing a tree\<close>

lemma mkdirs_ok:
  "\<forall>q. prefix q k \<longrightarrow> \<not> isFile (nodeAt fs q) \<Longrightarrow>
     mkdirs fs k = Inr (\<lambda>q. if q \<noteq> [] \<and> prefix q k then Some Dir else fs q)"
  by (auto simp: mkdirs_def list_ex_iff)

lemma writeFileSync_ok:
  assumes "resolve E p = k" and "k \<noteq> []" and "fs k = None" and "nodeAt fs (butlast k) = Some Dir"
  shows "writeFileSync E fs p content = Inr (fs(k \<mapsto> File content))"
  using assms by (auto simp: writeFileSync_def Let_def nodeAt_def)

lemma kidsAt_None: "x \<notin> fst ` set kids \<Longrightarrow> kidsAt kids x xs = None"
  by (induction kids) auto

lemma types_differ: "types_file \<noteq> types_dir"
  by (simp add: types_file_def types_dir_def)

lemma wellFormed_typeOf: "wellFormed t \<Longrightarrow> typeOf t = types_dir \<or> typeOf t = types_file"
  by (cases t) auto

lemma expected_TFile:
  assumes "ready fs k (TFile content)"
  shows "expected fs k (TFile content) = fs(k \<mapsto> File content)"
proof
  fix q
  show "expected fs k (TFile content) q = (fs(k \<mapsto> File content)) q"
  proof (cases "prefix k q")
    case True
    then obtain r where r: "q = k @ r" by (auto simp: prefix_def)
    show ?thesis
    proof (cases r)
      case Nil
      with r show ?thesis by (simp add: expected_def)
    next
      case (Cons x xs)
      with r have "strict_prefix k q" by (simp add: strict_prefix_def)
      with assms have "fs q = None" by (simp add: ready_def)
      with r Cons show ?thesis by (simp add: expected_def)
    qed
  next
    case False
    then have "q \<noteq> k" by auto
    with False show ?thesis by (simp add: expected_def types_differ)
  qed
qed

lemma expected_TDir:
  assumes "ready fs k (TDir kids)"
  shows "expectedKids (\<lambda>q. if q \<noteq> [] \<and> prefix q k then Some Dir else fs q) k kids
           = expected fs k (TDir kids)"
proof
  fix q
  let ?fs1 = "\<lambda>q. if q \<noteq> [] \<and> prefix q k then Some Dir else fs q"
  from assms have k: "k \<noteq> []" and fr: "\<And>q. strict_prefix k q \<Longrightarrow> fs q = None"
    by (auto simp: ready_def)
  show "expectedKids ?fs1 k kids q = expected fs k (TDir kids) q"
  proof (cases "prefix k q")
    case True
    then obtain r where r: "q = k @ r" by (auto simp: prefix_def)
    show ?thesis
    proof (cases r)
      case Nil
      with r k show ?thesis by (simp add: expected_def expectedKids_def)
    next
      case (Cons x xs)
      with r have sp: "strict_prefix k q" by (simp add: strict_prefix_def)
      have np: "\<not> prefix q k" using sp by (auto simp: strict_prefix_def)
      show ?thesis using r Cons fr[OF sp] np
        by (simp add: expected_def expectedKids_def kidsAt_None)
    qed
  next
    case False
    then show ?thesis by (simp add: expected_def expectedKids_def)
  qed
qed

lemma prefix_snoc_cases:
  "prefix q (k @ [nm]) \<longleftrightarrow> prefix q k \<or> q = k @ [nm]"
  by auto

lemma expectedKids_Cons:
  assumes "readyKids fs k ((nm, t) # rest)" and "nm \<notin> fst ` set rest"
  shows "expectedKids (expected fs (k @ [nm]) t) k rest = expectedKids fs k ((nm, t) # rest)"
proof
  fix q
  from assms(1) have k: "k \<noteq> []" and dirs: "\<And>q. q \<noteq> [] \<Longrightarrow> prefix q k \<Longrightarrow> fs q = Some Dir"
    by (auto simp: readyKids_def)
  show "expectedKids (expected fs (k @ [nm]) t) k rest q = expectedKids fs k ((nm, t) # rest) q"
  proof (cases "prefix k q")
    case True
    then obtain r where r: "q = k @ r" by (auto simp: prefix_def)
    show ?thesis
    proof (cases r)
      case Nil
      with r k dirs[of k] show ?thesis
        by (simp add: expected_def expectedKids_def prefix_snoc_cases)
    next
      case (Cons x xs)
      show ?thesis
      proof (cases "x = nm")
        case True
        with r Cons assms(2) show ?thesis
          by (simp add: expected_def expectedKids_def)
      next
        case False
        have 1: "\<not> prefix (k @ [nm]) q" using r Cons False by (auto simp: prefix_def)
        have 2: "\<not> prefix q (k @ [nm])" using r Cons False by (auto simp: prefix_snoc_cases)
        show ?thesis using r Cons False 1 2
          by (simp add: expected_def expectedKids_def)
      qed
    qed
  next
    case False
    then have 1: "\<not> prefix (k @ [nm]) q" by (auto simp: prefix_def)
    have "expected fs (k @ [nm]) t q = fs q"
    proof (cases "q \<noteq> [] \<and> prefix q (k @ [nm])")
      case True
      with False have "prefix q k" by (auto simp: prefix_snoc_cases)
      with True dirs[of q] 1 show ?thesis by (simp add: expected_def)
    next
      case False
      with 1 show ?thesis by (auto simp: expected_def)
    qed
    with False show ?thesis by (simp add: expectedKids_def)
  qed
qed


lemma ready_child:
  assumes "readyKids fs k ((nm, t) # rest)"
  shows "ready fs (k @ [nm]) t"
proof -
  from assms(1) have k: "k \<noteq> []" and dirs: "\<And>q. q \<noteq> [] \<Longrightarrow> prefix q k \<Longrightarrow> fs q = Some Dir"
    and fresh: "\<And>q. prefix (k @ [nm]) q \<Longrightarrow> fs q = None"
    by (auto simp: readyKids_def)
  have below: "\<forall>q. strict_prefix (k @ [nm]) q \<longrightarrow> fs q = None"
    using fresh by (auto simp: strict_prefix_def)
  have here: "fs (k @ [nm]) = None" using fresh by simp
  have parent: "nodeAt fs k = Some Dir" using k dirs[of k] by (simp add: nodeAt_def)
  have nofile: "\<not> isFile (nodeAt fs q)" if "prefix q (k @ [nm])" for q
  proof (cases "q = k @ [nm]")
    case True
    with here show ?thesis by (simp add: nodeAt_def isFile_def)
  next
    case False
    with that have "prefix q k" by (simp add: prefix_snoc_cases)
    then show ?thesis using dirs[of q] by (cases "q = []") (simp_all add: nodeAt_def isFile_def)
  qed
  show ?thesis
    using below here parent nofile by (cases t) (simp_all add: ready_def)
qed

lemma readyKids_rest:
  assumes "readyKids fs k ((nm, t) # rest)" and "nm \<notin> fst ` set rest"
  shows "readyKids (expected fs (k @ [nm]) t) k rest"
proof -
  from assms(1) have k: "k \<noteq> []" and dirs: "\<And>q. q \<noteq> [] \<Longrightarrow> prefix q k \<Longrightarrow> fs q = Some Dir"
    and fresh: "\<And>n q. n \<in> fst ` set rest \<Longrightarrow> prefix (k @ [n]) q \<Longrightarrow> fs q = None"
    by (auto simp: readyKids_def)
  have 1: "expected fs (k @ [nm]) t q = Some Dir" if "q \<noteq> []" "prefix q k" for q
  proof -
    have "\<not> prefix (k @ [nm]) q" using that(2) by (auto simp: prefix_def)
    then show ?thesis using dirs[OF that] by (simp add: expected_def)
  qed
  have 2: "expected fs (k @ [nm]) t q = None" if "n \<in> fst ` set rest" "prefix (k @ [n]) q" for n q
  proof -
    from that assms(2) have ne: "n \<noteq> nm" by auto
    from that(2) obtain r where r: "q = k @ n # r" by (auto simp: prefix_def)
    have a: "\<not> prefix (k @ [nm]) q" using r ne by (auto simp: prefix_def)
    have b: "\<not> prefix q (k @ [nm])" using r ne by (auto simp: prefix_snoc_cases)
    show ?thesis using a b fresh[OF that] by (simp add: expected_def)
  qed
  show ?thesis using k 1 2 by (simp add: readyKids_def)
qed

lemma readyKids_after_mkdirs:
  assumes "ready fs k (TDir kids)"
  shows "readyKids (\<lambda>q. if q \<noteq> [] \<and> prefix q k then Some Dir else fs q) k kids"
proof -
  from assms have k: "k \<noteq> []" and fr: "\<And>q. strict_prefix k q \<Longrightarrow> fs q = None"
    by (auto simp: ready_def)
  have "(if q \<noteq> [] \<and> prefix q k then Some Dir else fs q) = None" if "prefix (k @ [n]) q" for n q
  proof -
    from that obtain r where r: "q = k @ n # r" by (auto simp: prefix_def)
    then have "strict_prefix k q" by (simp add: strict_prefix_def)
    moreover have "\<not> prefix q k" using r by simp
    ultimately show ?thesis using fr by simp
  qed
  then show ?thesis using k by (simp add: readyKids_def)
qed

lemma pull_reconstructs:
  fixes E :: env and root :: string
  shows "\<And>fuel h dest w. height t < fuel \<Longrightarrow> served E h t \<Longrightarrow> wellFormed t \<Longrightarrow>
           ready (fsys w) (resolve E dest) t \<Longrightarrow>
           \<exists>w'. pullIPFS fuel E root h dest (typeOf t) w = Some (Inr (), w') \<and>
                fsys w' = expected (fsys w) (resolve E dest) t"
    and "\<And>fuel links dest w. heightKids kids \<le> fuel \<Longrightarrow> servedKids E links kids \<Longrightarrow>
           wellFormedKids kids \<Longrightarrow> distinct (map fst kids) \<Longrightarrow>
           readyKids (fsys w) (resolve E dest) kids \<Longrightarrow>
           \<exists>w'. pullLinks fuel E root links dest w = Some (Inr (), w') \<and>
                fsys w' = expectedKids (fsys w) (resolve E dest) kids"
proof (induction t and kids rule: height_heightKids.induct)
  case (1 content)
  then obtain j where j: "fuel = Suc j" by (cases fuel) auto
  from 1(2) have c: "ipfs_cat E h = Some content" by simp
  from 1(4) have r: "resolve E dest \<noteq> []" "fsys w (resolve E dest) = None"
    "nodeAt (fsys w) (butlast (resolve E dest)) = Some Dir"
    by (auto simp: ready_def)
  have wr: "writeFileSync E (fsys w) dest content = Inr ((fsys w)(resolve E dest \<mapsto> File content))"
    using r by (intro writeFileSync_ok) auto
  let ?w' = "(logEvent (IpfsCat h) w)\<lparr>fsys := (fsys w)(resolve E dest \<mapsto> File content)\<rparr>"
  have "pullIPFS fuel E root h dest (typeOf (TFile content)) w = Some (Inr (), ?w')"
    unfolding j using c wr by (simp add: types_differ Let_def fsys_logEvent)
  moreover have "fsys ?w' = expected (fsys w) (resolve E dest) (TFile content)"
    using expected_TFile[OF 1(4)] by simp
  ultimately show ?case by blast
next
  case (2 kids)
  then obtain j where j: "fuel = Suc j" by (cases fuel) auto
  let ?k = "resolve E dest"
  let ?fs1 = "\<lambda>q. if q \<noteq> [] \<and> prefix q ?k then Some Dir else fsys w q"
  let ?w1 = "logEvent (IpfsLs h) (w\<lparr>fsys := ?fs1\<rparr>)"
  from 2(5) have nf: "\<forall>q. prefix q ?k \<longrightarrow> \<not> isFile (nodeAt (fsys w) q)" by (simp add: ready_def)
  have mk: "ensureDirSync E (fsys w) dest = Inr ?fs1"
    unfolding ensureDirSync_def using nf by (rule mkdirs_ok)
  from 2(3) obtain links more where ls: "ipfs_ls E h = Some (links # more)"
    and sk: "servedKids E links kids"
    by (auto split: option.splits list.splits)
  have f1: "fsys ?w1 = ?fs1" by (simp add: fsys_logEvent)
  have rk: "readyKids (fsys ?w1) ?k kids" unfolding f1 using 2(5) by (rule readyKids_after_mkdirs)
  have hk: "heightKids kids \<le> j" using 2(2) j by simp
  from 2(4) have wk: "wellFormedKids kids" and dk: "distinct (map fst kids)" by simp_all
  from 2(1)[OF hk sk wk dk rk] obtain w' where
    w': "pullLinks j E root links dest ?w1 = Some (Inr (), w')"
    "fsys w' = expectedKids (fsys ?w1) ?k kids" by blast
  have "pullIPFS fuel E root h dest (typeOf (TDir kids)) w = Some (Inr (), w')"
    unfolding j using mk ls w'(1) by (simp add: Let_def)
  moreover have "fsys w' = expected (fsys w) ?k (TDir kids)"
    using w'(2) expected_TDir[OF 2(5)] unfolding f1 by simp
  ultimately show ?case by blast
next
  case (3 ty)
  then show ?case by simp
next
  case 4
  from 4(2) have "links = []" by (cases links) auto
  moreover have "expectedKids (fsys w) (resolve E dest) [] = fsys w"
    by (rule ext) (simp add: expectedKids_def split: list.splits)
  ultimately show ?case by simp
next
  case (5 nm t rest)
  let ?k = "resolve E dest"
  from 5(4) obtain l ls where links: "links = l # ls" and l: "Name l = nm" "Type l = typeOf t"
    "served E (Hash l) t" and sr: "servedKids E ls rest"
    by (cases links) auto
  from 5(5) have sn: "simpleName nm" and wt: "wellFormed t" and wr: "wellFormedKids rest" by simp_all
  from 5(6) have nn: "nm \<notin> fst ` set rest" and dr: "distinct (map fst rest)" by auto
  have ht: "height t < fuel" and hr: "heightKids rest \<le> fuel" using 5(3) by simp_all
  have rs: "resolve E (pathJoin [dest, nm]) = ?k @ [nm]" using sn by (rule resolve_pathJoin)
  have rc: "ready (fsys w) (resolve E (pathJoin [dest, nm])) t"
    unfolding rs using 5(7) by (rule ready_child)
  from 5(1)[OF ht l(3) wt rc] obtain w1 where
    w1: "pullIPFS fuel E root (Hash l) (pathJoin [dest, nm]) (typeOf t) w = Some (Inr (), w1)"
    "fsys w1 = expected (fsys w) (?k @ [nm]) t" unfolding rs by blast
  have rr: "readyKids (fsys w1) ?k rest" unfolding w1(2) using 5(7) nn by (rule readyKids_rest)
  from 5(2)[OF hr sr wr dr rr] obtain w' where
    w': "pullLinks fuel E root ls dest w1 = Some (Inr (), w')"
    "fsys w' = expectedKids (fsys w1) ?k rest" by blast
  have "pullLinks fuel E root links dest w = Some (Inr (), w')"
    using links l w1(1) w'(1) by simp
  moreover have "fsys w' = expectedKids (fsys w) ?k ((nm, t) # rest)"
    using w'(2) expectedKids_Cons[OF 5(7) nn] unfolding w1(2) by simp
  ultimately show ?case by blast
qed


lemma no_other_wellFormed:
  "served E h t \<Longrightarrow> validTree t \<Longrightarrow> firstOther E h t = None \<Longrightarrow> wellFormed t"
  "servedKids E links kids \<Longrightarrow> validKids kids \<Longrightarrow> firstOtherKids E links kids = None \<Longrightarrow>
     wellFormedKids kids"
proof (induction E h t and E links kids rule: served_servedKids.induct)
  case (2 E h kids)
  then show ?case by (auto split: option.splits list.splits)
next
  case (5 E l ls nm t kids)
  then show ?case by (auto split: option.splits)
qed auto

lemma pull_aborts:
  fixes E :: env and root :: string
  shows "\<And>fuel h dest w. height t < fuel \<Longrightarrow> served E h t \<Longrightarrow> validTree t \<Longrightarrow>
           ready (fsys w) (resolve E dest) t \<Longrightarrow> firstOther E h t = Some (ty, hh) \<Longrightarrow>
           \<exists>w'. pullIPFS fuel E root h dest (typeOf t) w
                  = Some (Inl (UnknownNodeTypeError ty hh root), w')"
    and "\<And>fuel links dest w. heightKids kids \<le> fuel \<Longrightarrow> servedKids E links kids \<Longrightarrow>
           validKids kids \<Longrightarrow> distinct (map fst kids) \<Longrightarrow>
           readyKids (fsys w) (resolve E dest) kids \<Longrightarrow>
           firstOtherKids E links kids = Some (ty, hh) \<Longrightarrow>
           \<exists>w'. pullLinks fuel E root links dest w
                  = Some (Inl (UnknownNodeTypeError ty hh root), w')"
proof (induction t and kids rule: height_heightKids.induct)
  case (1 content)
  then show ?case by simp
next
  case (2 kids)
  then obtain j where j: "fuel = Suc j" by (cases fuel) auto
  let ?k = "resolve E dest"
  let ?fs1 = "\<lambda>q. if q \<noteq> [] \<and> prefix q ?k then Some Dir else fsys w q"
  let ?w1 = "logEvent (IpfsLs h) (w\<lparr>fsys := ?fs1\<rparr>)"
  from 2(5) have nf: "\<forall>q. prefix q ?k \<longrightarrow> \<not> isFile (nodeAt (fsys w) q)" by (simp add: ready_def)
  have mk: "ensureDirSync E (fsys w) dest = Inr ?fs1"
    unfolding ensureDirSync_def using nf by (rule mkdirs_ok)
  from 2(3) obtain links more where ls: "ipfs_ls E h = Some (links # more)"
    and sk: "servedKids E links kids"
    by (auto split: option.splits list.splits)
  have f1: "fsys ?w1 = ?fs1" by (simp add: fsys_logEvent)
  have rk: "readyKids (fsys ?w1) ?k kids" unfolding f1 using 2(5) by (rule readyKids_after_mkdirs)
  have hk: "heightKids kids \<le> j" using 2(2) j by simp
  from 2(4) have wk: "validKids kids" and dk: "distinct (map fst kids)" by simp_all
  from 2(6) ls have fo: "firstOtherKids E links kids = Some (ty, hh)" by simp
  from 2(1)[OF hk sk wk dk rk fo] obtain w' where
    "pullLinks j E root links dest ?w1 = Some (Inl (UnknownNodeTypeError ty hh root), w')" by blast
  then have "pullIPFS fuel E root h dest (typeOf (TDir kids)) w
               = Some (Inl (UnknownNodeTypeError ty hh root), w')"
    unfolding j using mk ls by (simp add: Let_def)
  then show ?case by blast
next
  case (3 ty')
  then obtain j where j: "fuel = Suc j" by (cases fuel) auto
  from 3(5) have "ty' = ty" "hh = h" by simp_all
  with 3(3) show ?case unfolding j by simp
next
  case 4
  from 4(2) have "links = []" by (cases links) auto
  with 4(6) show ?case by simp
next
  case (5 nm t rest)
  let ?k = "resolve E dest"
  from 5(4) obtain l ls where links: "links = l # ls" and l: "Name l = nm" "Type l = typeOf t"
    "served E (Hash l) t" and sr: "servedKids E ls rest"
    by (cases links) auto
  from 5(5) have sn: "simpleName nm" and vt: "validTree t" and vr: "validKids rest" by simp_all
  from 5(6) have nn: "nm \<notin> fst ` set rest" and dr: "distinct (map fst rest)" by auto
  have ht: "height t < fuel" and hr: "heightKids rest \<le> fuel" using 5(3) by simp_all
  have rs: "resolve E (pathJoin [dest, nm]) = ?k @ [nm]" using sn by (rule resolve_pathJoin)
  have rc: "ready (fsys w) (resolve E (pathJoin [dest, nm])) t"
    unfolding rs using 5(7) by (rule ready_child)
  show ?case
  proof (cases "firstOther E (Hash l) t")
    case (Some found)
    with 5(8) links have "firstOther E (Hash l) t = Some (ty, hh)" by simp
    from 5(1)[OF ht l(3) vt rc this] obtain w1 where
      "pullIPFS fuel E root (Hash l) (pathJoin [dest, nm]) (typeOf t) w
         = Some (Inl (UnknownNodeTypeError ty hh root), w1)" by blast
    then have "pullLinks fuel E root links dest w
                 = Some (Inl (UnknownNodeTypeError ty hh root), w1)"
      using links l by simp
    then show ?thesis by blast
  next
    case None
    with 5(8) links have fo: "firstOtherKids E ls rest = Some (ty, hh)" by simp
    have wt: "wellFormed t" using l(3) vt None by (rule no_other_wellFormed(1))
    from pull_reconstructs(1)[OF ht l(3) wt rc] obtain w1 where
      w1: "pullIPFS fuel E root (Hash l) (pathJoin [dest, nm]) (typeOf t) w = Some (Inr (), w1)"
      "fsys w1 = expected (fsys w) (?k @ [nm]) t" unfolding rs by blast
    have rr: "readyKids (fsys w1) ?k rest" unfolding w1(2) using 5(7) nn by (rule readyKids_rest)
    from 5(2)[OF hr sr vr dr rr fo] obtain w' where
      "pullLinks fuel E root ls dest w1 = Some (Inl (UnknownNodeTypeError ty hh root), w')" by blast
    then have "pullLinks fuel E root links dest w
                 = Some (Inl (UnknownNodeTypeError ty hh root), w')"
      using links l w1(1) by simp
    then show ?thesis by blast
  qed
qed

text \<open>
  Claim C8. Let the IPFS node serve a tree at a hash, let the names in each of its
  directories be distinct and each a single path segment, and let the destination be ready
  for it. Take a recursion bound above the height of the tree. If the tree is well formed
  (files and directories only), the reconstruction returns normally, and the file system
  afterwards has exactly the tree at and below the destination: a directory for each
  directory, the content for each file, nothing else there, and the rest as before (the
  directories leading to the destination exist). If the tree has a node of another type, the
  walk ends at the first such node with the unknown-type error that carries the type, the
  hash of that node and the root hash.
\<close>

theorem ipfs_reconstruction:
  "(height t < fuel \<and> served E h t \<and> wellFormed t \<and> ready (fsys w) (resolve E dest) t \<longrightarrow>
      (\<exists>w'. pullIPFS fuel E root h dest (typeOf t) w = Some (Inr (), w') \<and>
            fsys w' = expected (fsys w) (resolve E dest) t)) \<and>
   (height t < fuel \<and> served E h t \<and> validTree t \<and> ready (fsys w) (resolve E dest) t \<and>
    firstOther E h t = Some (ty, hh) \<longrightarrow>
      (\<exists>w'. pullIPFS fuel E root h dest (typeOf t) w
               = Some (Inl (UnknownNodeTypeError ty hh root), w')))"
  using pull_reconstructs(1)[of t fuel E h w dest root]
    pull_aborts(1)[of t fuel E h w dest ty hh root]
  by blast

theorem ipfs_reconstruction_witness:
  "height sampleTree < 3 \<and> served sampleEnv ''QmRoot'' sampleTree \<and> wellFormed sampleTree \<and>
   ready (fsys sampleWorld) (resolve sampleEnv ''dest'') sampleTree \<and>
   (\<exists>w'. pullIPFS 3 sampleEnv ''QmRoot'' ''QmRoot'' ''dest'' (typeOf sampleTree) sampleWorld
            = Some (Inr (), w') \<and>
         fsys w' [''home'', ''proj'', ''dest''] = Some Dir \<and>
         fsys w' [''home'', ''proj'', ''dest'', ''a.txt''] = Some (File ''X'') \<and>
         fsys w' [''home'', ''proj'', ''dest'', ''sub''] = Some Dir \<and>
         fsys w' [''home'', ''proj'', ''dest'', ''sub'', ''b.txt''] = Some (File ''Y'') \<and>
         fsys w' [''home'', ''proj'', ''dest'', ''other''] = None) \<and>
   height oddTree < 3 \<and> served oddEnv ''QmRoot'' oddTree \<and> validTree oddTree \<and>
   ready (fsys sampleWorld) (resolve oddEnv ''dest'') oddTree \<and>
   firstOther oddEnv ''QmRoot'' oddTree = Some (7, ''QmZ'') \<and>
   map_option fst
     (pullIPFS 3 oddEnv ''QmRoot'' ''QmRoot'' ''dest'' (typeOf oddTree) sampleWorld)
     = Some (Inl (UnknownNodeTypeError 7 ''QmZ'' ''QmRoot''))"
proof -
  let ?k = "[''home'', ''proj'', ''dest'']"
  have 1: "height sampleTree < 3" by code_simp
  have 2: "served sampleEnv ''QmRoot'' sampleTree" by code_simp
  have 3: "wellFormed sampleTree" by code_simp
  have r: "resolve sampleEnv ''dest'' = ?k" by code_simp
  have 4: "ready (fsys sampleWorld) (resolve sampleEnv ''dest'') sampleTree"
    unfolding r
    by (auto simp: ready_def sampleTree_def sampleWorld_def nodeAt_def isFile_def strict_prefix_def)
  from ipfs_reconstruction[where t = sampleTree and fuel = 3 and E = sampleEnv and h = "''QmRoot''"
      and w = sampleWorld and dest = "''dest''" and root = "''QmRoot''"]
    1 2 3 4
  obtain w' where w': "pullIPFS 3 sampleEnv ''QmRoot'' ''QmRoot'' ''dest'' (typeOf sampleTree) sampleWorld
            = Some (Inr (), w')"
    "fsys w' = expected (fsys sampleWorld) ?k sampleTree" unfolding r by blast
  have 5: "expected (fsys sampleWorld) ?k sampleTree ?k = Some Dir"
    "expected (fsys sampleWorld) ?k sampleTree (?k @ [''a.txt'']) = Some (File ''X'')"
    "expected (fsys sampleWorld) ?k sampleTree (?k @ [''sub'']) = Some Dir"
    "expected (fsys sampleWorld) ?k sampleTree (?k @ [''sub'', ''b.txt'']) = Some (File ''Y'')"
    "expected (fsys sampleWorld) ?k sampleTree (?k @ [''other'']) = None"
    by (simp_all add: expected_def sampleTree_def)
  have 6: "height oddTree < 3" by code_simp
  have 7: "served oddEnv ''QmRoot'' oddTree" by code_simp
  have 8: "validTree oddTree" by code_simp
  have r': "resolve oddEnv ''dest'' = ?k" by code_simp
  have 9: "ready (fsys sampleWorld) (resolve oddEnv ''dest'') oddTree"
    unfolding r'
    by (auto simp: ready_def oddTree_def sampleWorld_def nodeAt_def isFile_def strict_prefix_def)
  have 10: "firstOther oddEnv ''QmRoot'' oddTree = Some (7, ''QmZ'')" by code_simp
  from ipfs_reconstruction[where t = oddTree and fuel = 3 and E = oddEnv and h = "''QmRoot''"
      and w = sampleWorld and dest = "''dest''" and root = "''QmRoot''" and ty = 7
      and hh = "''QmZ''"]
    6 7 8 9 10
  obtain w2 where "pullIPFS 3 oddEnv ''QmRoot'' ''QmRoot'' ''dest'' (typeOf oddTree) sampleWorld
      = Some (Inl (UnknownNodeTypeError 7 ''QmZ'' ''QmRoot''), w2)" by blast
  then have 11: "map_option fst
     (pullIPFS 3 oddEnv ''QmRoot'' ''QmRoot'' ''dest'' (typeOf oddTree) sampleWorld)
     = Some (Inl (UnknownNodeTypeError 7 ''QmZ'' ''QmRoot''))" by simp
  show ?thesis using 1 2 3 4 w' 5 6 7 8 9 10 11 by auto
qed

end
